theory Spec2Isabelle
  imports Main
begin

section \<open>Radio control value accessor and registry\<close>

text \<open>
  A shallow embedding of \<^verbatim>\<open>packages/forms/src/directives/radio_control_value_accessor.ts\<close>:
  the class \<^verbatim>\<open>RadioControlRegistry\<close> (add, remove, select, \_isSameGroup) and the
  class \<^verbatim>\<open>RadioControlValueAccessor\<close> (ngOnInit, ngOnDestroy, writeValue,
  registerOnChange, fireUncheck, \_checkName, \_parsedName, \_throwNameError).

  Objects have identity, so they live in stores indexed by references; a method takes the
  world and returns the world it leaves behind. A method that can throw returns the
  error (if any) together with the world at the moment of the throw, because the
  mutations made before a JavaScript exception stay in place. The calls that leave the
  class (the change callback, the renderer) and the calls of fireUncheck are recorded in
  a trace, in the order in which they happen.

  registerOnTouched and setDisabledState only hand their argument to the host; no
  property below concerns them and they are left out.
\<close>

subsection \<open>Values\<close>

type_synonym ref = nat

text \<open>
  A property of static type \<^verbatim>\<open>string\<close> that may be missing at run time
  (\<^verbatim>\<open>name\<close>, \<^verbatim>\<open>formControlName\<close>, a path segment).
\<close>

datatype jsstring = Undefined | Null | Str string

text \<open>
  A property of type \<^verbatim>\<open>any\<close> (the accessor's \<^verbatim>\<open>value\<close>, the argument
  of \<^verbatim>\<open>writeValue\<close>). Numbers are the integers and NaN: enough to tell the
  types apart and to keep the one number that is not equal to itself.
\<close>

datatype jsval = VUndefined | VNull | VBool bool | VNum int | VNaN | VStr string | VObj ref

datatype jstype = TUndefined | TNull | TBoolean | TNumber | TString | TObject

fun type_of :: "jsval \<Rightarrow> jstype" where
  "type_of VUndefined = TUndefined"
| "type_of VNull = TNull"
| "type_of (VBool b) = TBoolean"
| "type_of (VNum n) = TNumber"
| "type_of VNaN = TNumber"
| "type_of (VStr s) = TString"
| "type_of (VObj r) = TObject"

text \<open>
  The operator \<^verbatim>\<open>===\<close>: values of different types are never equal, NaN is equal
  to nothing, and otherwise the values are compared (objects by reference).
\<close>

definition strict_eq :: "jsval \<Rightarrow> jsval \<Rightarrow> bool" where
  "strict_eq x y =
     (if type_of x \<noteq> type_of y then False
      else if x = VNaN \<or> y = VNaN then False
      else x = y)"

text \<open>Truthiness of a string-typed property: missing and the empty string are falsy.\<close>

fun truthy :: "jsstring \<Rightarrow> bool" where
  "truthy Undefined = False"
| "truthy Null = False"
| "truthy (Str s) = (s \<noteq> [])"

text \<open>The test \<^verbatim>\<open>x == null\<close>.\<close>

fun is_nullish :: "jsstring \<Rightarrow> bool" where
  "is_nullish Undefined = True"
| "is_nullish Null = True"
| "is_nullish (Str s) = False"

text \<open>The text a template literal \<^verbatim>\<open>`${x}`\<close> inserts.\<close>

fun to_string :: "jsstring \<Rightarrow> string" where
  "to_string Undefined = ''undefined''"
| "to_string Null = ''null''"
| "to_string (Str s) = s"

subsection \<open>The model tree and the control handles\<close>

text \<open>
  Modelled from the spec: \<^verbatim>\<open>AbstractControl\<close> is imported from \<^verbatim>\<open>../model\<close>,
  which is not among the sources. The spec's AbstractModelNode has a parent reference
  and a way to tell whether the node is list-indexed; the code reads exactly
  \<^verbatim>\<open>parent\<close> and the presence of the method \<^verbatim>\<open>at\<close> (which a FormArray has).
  A node carries its chain of parents, so the chain is finite.
\<close>

datatype AbstractControl = AbstractControl (parent: "AbstractControl option") (at: bool)

text \<open>
  Modelled from the spec: \<^verbatim>\<open>NgControl\<close> is imported from \<^verbatim>\<open>./ng_control\<close>,
  which is not among the sources. The spec's ControlHandle has an optional parent
  reference (\<^verbatim>\<open>_parent\<close>, compared by identity, here a reference to a container),
  an associated model node (\<^verbatim>\<open>control\<close>, possibly unresolved) and a mutable path of
  string segments (\<^verbatim>\<open>path\<close>, possibly absent).
\<close>

record NgControl =
  parent_ref :: "ref option"
  control :: "AbstractControl option"
  path :: "jsstring list option"

subsection \<open>The accessor, the events and the world\<close>

text \<open>
  The fields of \<^verbatim>\<open>RadioControlValueAccessor\<close>. \<^verbatim>\<open>state\<close> is \<^verbatim>\<open>_state\<close>
  (unset until the first write), \<^verbatim>\<open>control_ref\<close> is \<^verbatim>\<open>_control\<close> (unset until
  ngOnInit), \<^verbatim>\<open>fn\<close> is \<^verbatim>\<open>_fn\<close>, \<^verbatim>\<open>val\<close> is \<^verbatim>\<open>value\<close> and
  \<^verbatim>\<open>nativeElement\<close> is \<^verbatim>\<open>_elementRef.nativeElement\<close>. The hook \<^verbatim>\<open>onChange\<close>
  is either the initial \<^verbatim>\<open>() => {}\<close> (None) or the closure that registerOnChange
  builds around a callback (Some of that callback).
\<close>

record RadioControlValueAccessor =
  state :: "bool option"
  control_ref :: "ref option"
  fn :: "ref option"
  onChange :: "ref option"
  name :: jsstring
  formControlName :: jsstring
  val :: jsval
  nativeElement :: ref

text \<open>
  What the outside observes, in order: a call of a registered change callback, a call of
  an accessor's fireUncheck, and a call of the renderer's setProperty.
\<close>

datatype event =
    FnCall ref jsval
  | FireUncheck ref jsval
  | SetProperty ref string jsval

text \<open>
  \<^verbatim>\<open>containers\<close> gives the \<^verbatim>\<open>control\<close> of the container a handle's
  \<^verbatim>\<open>_parent\<close> refers to; \<^verbatim>\<open>registry\<close> is the array \<^verbatim>\<open>_accessors\<close> of pairs
  [control, accessor] of the one registry the accessors share.
\<close>

record world =
  containers :: "ref \<Rightarrow> AbstractControl option"
  handles :: "ref \<Rightarrow> NgControl"
  accessors :: "ref \<Rightarrow> RadioControlValueAccessor"
  registry :: "(ref \<times> ref) list"
  trace :: "event list"

datatype error =
    TypeError
  | NameError jsstring jsstring

subsection \<open>RadioControlRegistry\<close>

definition add :: "ref \<Rightarrow> ref \<Rightarrow> world \<Rightarrow> world" where
  "add c a w = w\<lparr>registry := registry w @ [(c, a)]\<rparr>"

text \<open>\<^verbatim>\<open>splice(i, 1)\<close> at an index inside the array.\<close>

definition splice1 :: "nat \<Rightarrow> 'a list \<Rightarrow> 'a list" where
  "splice1 i xs = take i xs @ drop (Suc i) xs"

text \<open>
  The loop of remove, \<^verbatim>\<open>for (let i = length - 1; i >= 0; --i)\<close>; the first argument
  is \<^verbatim>\<open>i + 1\<close>.
\<close>

fun remove_loop :: "nat \<Rightarrow> ref \<Rightarrow> (ref \<times> ref) list \<Rightarrow> (ref \<times> ref) list" where
  "remove_loop 0 a xs = xs"
| "remove_loop (Suc i) a xs =
     (if snd (xs ! i) = a then splice1 i xs else remove_loop i a xs)"

definition remove_pairs :: "ref \<Rightarrow> (ref \<times> ref) list \<Rightarrow> (ref \<times> ref) list" where
  "remove_pairs a xs = remove_loop (length xs) a xs"

definition remove :: "ref \<Rightarrow> world \<Rightarrow> world" where
  "remove a w = w\<lparr>registry := remove_pairs a (registry w)\<rparr>"

text \<open>
  \_isSameGroup. Reading \<^verbatim>\<open>accessor._control._parent\<close> throws a TypeError when the
  accessor has no \<^verbatim>\<open>_control\<close> yet.
\<close>

definition isSameGroup :: "ref \<times> ref \<Rightarrow> ref \<Rightarrow> world \<Rightarrow> error + bool" where
  "isSameGroup controlPair a w =
     (if control (handles w (fst controlPair)) = None then Inr False
      else
        (case control_ref (accessors w a) of
           None \<Rightarrow> Inl TypeError
         | Some h \<Rightarrow>
             Inr (parent_ref (handles w (fst controlPair)) = parent_ref (handles w h) \<and>
                  name (accessors w (snd controlPair)) = name (accessors w a))))"

subsection \<open>RadioControlValueAccessor: writing values\<close>

definition writeValue :: "ref \<Rightarrow> jsval \<Rightarrow> world \<Rightarrow> world" where
  "writeValue a v w =
     (let s = strict_eq v (val (accessors w a)) in
      w\<lparr>accessors := (accessors w)(a := (accessors w a)\<lparr>state := Some s\<rparr>),
        trace := trace w @ [SetProperty (nativeElement (accessors w a)) ''checked'' (VBool s)]\<rparr>)"

definition fireUncheck :: "ref \<Rightarrow> jsval \<Rightarrow> world \<Rightarrow> world" where
  "fireUncheck a v w = writeValue a v (w\<lparr>trace := trace w @ [FireUncheck a v]\<rparr>)"

text \<open>The body of the callback that select passes to forEach.\<close>

definition select_step :: "ref \<Rightarrow> ref \<times> ref \<Rightarrow> world \<Rightarrow> error option \<times> world" where
  "select_step a c w =
     (case isSameGroup c a w of
        Inl e \<Rightarrow> (Some e, w)
      | Inr b \<Rightarrow>
          if b \<and> snd c \<noteq> a then (None, fireUncheck (snd c) (val (accessors w a)) w)
          else (None, w))"

fun select_loop :: "ref \<Rightarrow> (ref \<times> ref) list \<Rightarrow> world \<Rightarrow> error option \<times> world" where
  "select_loop a [] w = (None, w)"
| "select_loop a (c # cs) w =
     (case select_step a c w of
        (Some e, w') \<Rightarrow> (Some e, w')
      | (None, w') \<Rightarrow> select_loop a cs w')"

definition select :: "ref \<Rightarrow> world \<Rightarrow> error option \<times> world" where
  "select a w = select_loop a (registry w) w"

subsection \<open>RadioControlValueAccessor: the change hook\<close>

definition registerOnChange :: "ref \<Rightarrow> ref \<Rightarrow> world \<Rightarrow> world" where
  "registerOnChange a f w =
     w\<lparr>accessors := (accessors w)(a := (accessors w a)\<lparr>fn := Some f, onChange := Some f\<rparr>)\<rparr>"

text \<open>
  Invoking the hook \<^verbatim>\<open>onChange\<close>. The callback stands for the model update; its call
  is recorded with the argument it receives.
\<close>

definition call_onChange :: "ref \<Rightarrow> world \<Rightarrow> error option \<times> world" where
  "call_onChange a w =
     (case onChange (accessors w a) of
        None \<Rightarrow> (None, w)
      | Some f \<Rightarrow> select a (w\<lparr>trace := trace w @ [FnCall f (val (accessors w a))]\<rparr>))"

subsection \<open>RadioControlValueAccessor: name resolution\<close>

text \<open>
  The loop \<^verbatim>\<open>while (ancestor && ancestor.parent)\<close> that collects the ancestors,
  started at a node.
\<close>

fun ancestors_from :: "AbstractControl \<Rightarrow> AbstractControl list" where
  "ancestors_from (AbstractControl None b) = []"
| "ancestors_from (AbstractControl (Some p) b) = AbstractControl (Some p) b # ancestors_from p"

definition collect_ancestors :: "AbstractControl option \<Rightarrow> AbstractControl list" where
  "collect_ancestors start = (case start of None \<Rightarrow> [] | Some c \<Rightarrow> rev (ancestors_from c))"

text \<open>
  The loop that pairs \<^verbatim>\<open>path[i]\<close> with \<^verbatim>\<open>ancestors[i]\<close>; an index beyond the
  ancestors reads undefined, which is falsy.
\<close>

definition parsedAncestors :: "jsstring list \<Rightarrow> AbstractControl list \<Rightarrow> (jsstring \<times> bool) list" where
  "parsedAncestors p ancestors =
     map (\<lambda>i. (p ! i, i < length ancestors \<and> at (ancestors ! i))) [0..<length p]"

text \<open>
  The loop that builds the name; the arguments are \<^verbatim>\<open>parsedName\<close> and
  \<^verbatim>\<open>isPreviousAncestorArray\<close>.
\<close>

fun build_name :: "string \<Rightarrow> bool \<Rightarrow> (jsstring \<times> bool) list \<Rightarrow> string" where
  "build_name parsedName isPrev [] = parsedName"
| "build_name parsedName isPrev (pa # pas) =
     build_name
       (if isPrev then parsedName @ ''['' @ to_string (fst pa) @ '']''
        else parsedName @ (if parsedName \<noteq> [] then ''.'' else '''') @ to_string (fst pa))
       (snd pa) pas"

text \<open>The assignment to the last element of the path.\<close>

definition fill_last :: "jsstring list \<Rightarrow> jsstring \<Rightarrow> jsstring list" where
  "fill_last p f = (if is_nullish (p ! (length p - 1)) then p[length p - 1 := f] else p)"

text \<open>
  The getter \_parsedName: its result and the world it leaves (the path of the handle may
  have been filled in).
\<close>

definition parsedName :: "ref \<Rightarrow> world \<Rightarrow> (error + jsstring) \<times> world" where
  "parsedName a w =
     (case control_ref (accessors w a) of
        None \<Rightarrow> (Inl TypeError, w)
      | Some h \<Rightarrow>
          (case (parent_ref (handles w h), path (handles w h)) of
             (Some pr, Some (s # ss)) \<Rightarrow>
               (let p = fill_last (s # ss) (formControlName (accessors w a));
                    w' = w\<lparr>handles := (handles w)(h := (handles w h)\<lparr>path := Some p\<rparr>)\<rparr>;
                    ancestors = collect_ancestors (containers w pr)
                in (Inr (Str (build_name [] False (parsedAncestors p ancestors))), w'))
           | _ \<Rightarrow> (Inr (formControlName (accessors w a)), w)))"

text \<open>\_checkName, with \_throwNameError as the error it throws.\<close>

definition checkName :: "ref \<Rightarrow> world \<Rightarrow> error option \<times> world" where
  "checkName a w =
     (if truthy (name (accessors w a)) \<and> truthy (formControlName (accessors w a)) then
        (case parsedName a w of
           (Inl e, w1) \<Rightarrow> (Some e, w1)
         | (Inr pn, w1) \<Rightarrow>
             if name (accessors w1 a) \<noteq> pn then
               (case parsedName a w1 of
                  (Inl e, w2) \<Rightarrow> (Some e, w2)
                | (Inr pn2, w2) \<Rightarrow> (Some (NameError (name (accessors w1 a)) pn2), w2))
             else (None, w1))
      else if \<not> truthy (name (accessors w a)) \<and> truthy (formControlName (accessors w a)) then
        (case parsedName a w of
           (Inl e, w1) \<Rightarrow> (Some e, w1)
         | (Inr pn, w1) \<Rightarrow>
             (None, w1\<lparr>accessors := (accessors w1)(a := (accessors w1 a)\<lparr>name := pn\<rparr>)\<rparr>))
      else (None, w))"

text \<open>
  ngOnInit; the handle is what \<^verbatim>\<open>this._injector.get(NgControl)\<close> returns.
\<close>

text \<open>The assignment \<^verbatim>\<open>this._control = ...\<close>.\<close>

definition setControl :: "ref \<Rightarrow> ref \<Rightarrow> world \<Rightarrow> world" where
  "setControl a h w =
     w\<lparr>accessors := (accessors w)(a := (accessors w a)\<lparr>control_ref := Some h\<rparr>)\<rparr>"

definition ngOnInit :: "ref \<Rightarrow> ref \<Rightarrow> world \<Rightarrow> error option \<times> world" where
  "ngOnInit a h w =
     (case checkName a (setControl a h w) of
        (Some e, w1) \<Rightarrow> (Some e, w1)
      | (None, w1) \<Rightarrow> (None, add h a w1))"

definition ngOnDestroy :: "ref \<Rightarrow> world \<Rightarrow> world" where
  "ngOnDestroy a w = remove a w"

subsection \<open>Notions used to state the properties\<close>

text \<open>The fireUncheck calls of a trace, in order: the accessor called and the argument.\<close>

fun uncheck_calls :: "event list \<Rightarrow> (ref \<times> jsval) list" where
  "uncheck_calls [] = []"
| "uncheck_calls (FireUncheck c v # es) = (c, v) # uncheck_calls es"
| "uncheck_calls (e # es) = uncheck_calls es"

text \<open>The events that a run from world \<open>w\<close> to world \<open>w'\<close> appended to the trace.\<close>

definition emitted :: "world \<Rightarrow> world \<Rightarrow> event list" where
  "emitted w w' = drop (length (trace w)) (trace w')"

text \<open>An accessor is in checked state when its last write computed true.\<close>

definition checked :: "world \<Rightarrow> ref \<Rightarrow> bool" where
  "checked w c = (state (accessors w c) = Some True)"

text \<open>
  The group of an accessor as the spec words it: the pairings whose handle has the same
  parent reference as the accessor's handle and whose accessor declares the same name.
\<close>

definition shares_parent_and_name :: "world \<Rightarrow> ref \<Rightarrow> ref \<times> ref \<Rightarrow> bool" where
  "shares_parent_and_name w a c =
     (case control_ref (accessors w a) of
        None \<Rightarrow> False
      | Some h \<Rightarrow>
          parent_ref (handles w (fst c)) = parent_ref (handles w h) \<and>
          name (accessors w (snd c)) = name (accessors w a))"

text \<open>The group of an accessor as the registry decides it: the pairings \_isSameGroup accepts.\<close>

definition group_members :: "world \<Rightarrow> ref \<Rightarrow> ref list" where
  "group_members w a = map snd (filter (\<lambda>c. isSameGroup c a w = Inr True) (registry w))"

text \<open>
  The pairings of the group of an accessor that select can reach: those that share the
  parent and the name and whose handle has a resolved control.
\<close>

definition group_pairings :: "world \<Rightarrow> ref \<Rightarrow> (ref \<times> ref) list" where
  "group_pairings w a =
     filter (\<lambda>p. control (handles w (fst p)) \<noteq> None \<and> shares_parent_and_name w a p) (registry w)"

text \<open>The pairings for which the callback of select calls fireUncheck.\<close>

definition notifies :: "world \<Rightarrow> ref \<Rightarrow> ref \<times> ref \<Rightarrow> bool" where
  "notifies w a c = (isSameGroup c a w = Inr True \<and> snd c \<noteq> a)"

text \<open>The two events of one fireUncheck call: the call and the write to the element.\<close>

definition uncheck_events :: "world \<Rightarrow> jsval \<Rightarrow> ref \<Rightarrow> event list" where
  "uncheck_events w v c =
     [FireUncheck c v,
      SetProperty (nativeElement (accessors w c)) ''checked''
        (VBool (strict_eq v (val (accessors w c))))]"

text \<open>
  The name as the spec words it: the first segment bare; each later segment as
  \<^verbatim>\<open>[segment]\<close> when the previous segment's ancestor is array-like, and as
  \<^verbatim>\<open>.segment\<close> otherwise.
\<close>

fun spec_rest :: "bool \<Rightarrow> (jsstring \<times> bool) list \<Rightarrow> string" where
  "spec_rest isPrev [] = []"
| "spec_rest isPrev (pa # pas) =
     (if isPrev then ''['' @ to_string (fst pa) @ '']'' else ''.'' @ to_string (fst pa))
     @ spec_rest (snd pa) pas"

fun spec_name :: "(jsstring \<times> bool) list \<Rightarrow> string" where
  "spec_name [] = []"
| "spec_name (pa # pas) = to_string (fst pa) @ spec_rest (snd pa) pas"

text \<open>
  The name by position. The first segment is bare. A later segment is written
  \<^verbatim>\<open>[segment]\<close> when the ancestor of the segment before it is array-like.
  Otherwise it is written \<^verbatim>\<open>.segment\<close>, except that the dot is left out as long as
  every segment before it is the empty string and has no array-like ancestor (nothing
  has been written yet).
\<close>

definition segment_text :: "(jsstring \<times> bool) list \<Rightarrow> nat \<Rightarrow> string" where
  "segment_text pas i =
     (if i = 0 then to_string (fst (pas ! i))
      else if snd (pas ! (i - 1)) then ''['' @ to_string (fst (pas ! i)) @ '']''
      else if list_all (\<lambda>p. to_string (fst p) = [] \<and> \<not> snd p) (take i pas)
        then to_string (fst (pas ! i))
      else ''.'' @ to_string (fst (pas ! i)))"

definition name_by_position :: "(jsstring \<times> bool) list \<Rightarrow> string" where
  "name_by_position pas = concat (map (segment_text pas) [0..<length pas])"

text \<open>Sequences of add and remove operations on the registry.\<close>

datatype registry_op = Add ref ref | Remove ref

fun apply_op :: "registry_op \<Rightarrow> world \<Rightarrow> world" where
  "apply_op (Add c a) w = add c a w"
| "apply_op (Remove a) w = remove a w"

fun run :: "registry_op list \<Rightarrow> world \<Rightarrow> world" where
  "run [] w = w"
| "run (x # xs) w = run xs (apply_op x w)"

text \<open>
  A sequence in which add is never called for an accessor that has a pairing at that
  moment (the caller's duty: one add per attach).
\<close>

fun once_per_attach :: "registry_op list \<Rightarrow> (ref \<times> ref) list \<Rightarrow> bool" where
  "once_per_attach [] r = True"
| "once_per_attach (Add c a # xs) r = (a \<notin> set (map snd r) \<and> once_per_attach xs (r @ [(c, a)]))"
| "once_per_attach (Remove a # xs) r = once_per_attach xs (remove_pairs a r)"

subsection \<open>Example worlds\<close>

definition blank_accessor :: RadioControlValueAccessor where
  "blank_accessor =
     \<lparr>state = None, control_ref = None, fn = None, onChange = None, name = Undefined,
      formControlName = Undefined, val = VUndefined, nativeElement = 0\<rparr>"

definition blank_handle :: NgControl where
  "blank_handle = \<lparr>parent_ref = None, control = None, path = None\<rparr>"

definition blank_world :: world where
  "blank_world =
     \<lparr>containers = (\<lambda>r. None), handles = (\<lambda>r. blank_handle),
      accessors = (\<lambda>r. blank_accessor), registry = [], trace = []\<rparr>"

text \<open>The root of a form, and a control directly below it.\<close>

definition root_node :: AbstractControl where
  "root_node = AbstractControl None False"

definition leaf_node :: AbstractControl where
  "leaf_node = AbstractControl (Some root_node) False"

text \<open>
  A radio with the given name and value, attached to the given handle and drawn on the
  element of its own number.
\<close>

definition radio :: "ref \<Rightarrow> ref \<Rightarrow> string \<Rightarrow> jsval \<Rightarrow> RadioControlValueAccessor" where
  "radio r h n v =
     blank_accessor\<lparr>control_ref := Some h, name := Str n, val := v, nativeElement := r\<rparr>"

text \<open>A handle below container 20 with a resolved control, and one with an unresolved control.\<close>

definition resolved_handle :: NgControl where
  "resolved_handle =
     \<lparr>parent_ref = Some 20, control = Some leaf_node, path = Some [Str ''color'']\<rparr>"

definition unresolved_handle :: NgControl where
  "unresolved_handle = \<lparr>parent_ref = Some 20, control = None, path = Some [Str ''color'']\<rparr>"

text \<open>
  Three radios named color with the values red, green and blue, on handles 11, 12 and 13
  below the same container.
\<close>

definition colours :: world where
  "colours =
     \<lparr>containers = (\<lambda>r. if r = 20 then Some root_node else None),
      handles = (\<lambda>r. if r = 11 \<or> r = 12 \<or> r = 13 then resolved_handle else blank_handle),
      accessors = (\<lambda>r. if r = 1 then radio 1 11 ''color'' (VStr ''red'')
                        else if r = 2 then radio 2 12 ''color'' (VStr ''green'')
                        else if r = 3 then radio 3 13 ''color'' (VStr ''blue'')
                        else blank_accessor),
      registry = [(11, 1), (12, 2), (13, 3)], trace = []\<rparr>"

text \<open>The same three radios, all with the value red.\<close>

definition all_red :: world where
  "all_red =
     colours\<lparr>accessors := (\<lambda>r. if r = 1 then radio 1 11 ''color'' (VStr ''red'')
                        else if r = 2 then radio 2 12 ''color'' (VStr ''red'')
                        else if r = 3 then radio 3 13 ''color'' (VStr ''red'')
                        else blank_accessor)\<rparr>"

text \<open>Two radios of one parent and one name; the handle of the second has no control yet.\<close>

definition half_resolved :: world where
  "half_resolved =
     colours\<lparr>handles := (\<lambda>r. if r = 11 then resolved_handle
                        else if r = 12 then unresolved_handle else blank_handle),
       registry := [(11, 1), (12, 2)]\<rparr>"

text \<open>
  Five radios in one registry. Radio 1 is red and named color; radio 2 shares its parent
  and name but its handle has no control yet; radio 3 is named size; radio 4 is blue and
  in the group of radio 1; radio 5 is named color below another container.
\<close>

definition mixed :: world where
  "mixed =
     \<lparr>containers = (\<lambda>r. if r = 20 \<or> r = 22 then Some root_node else None),
      handles = (\<lambda>r. if r = 11 \<or> r = 13 \<or> r = 14 then resolved_handle
                      else if r = 12 then unresolved_handle
                      else if r = 15 then resolved_handle\<lparr>parent_ref := Some 22\<rparr>
                      else blank_handle),
      accessors = (\<lambda>r. if r = 1 then radio 1 11 ''color'' (VStr ''red'')
                        else if r = 2 then radio 2 12 ''color'' (VStr ''green'')
                        else if r = 3 then radio 3 13 ''size'' (VStr ''large'')
                        else if r = 4 then radio 4 14 ''color'' (VStr ''blue'')
                        else if r = 5 then radio 5 15 ''color'' (VStr ''black'')
                        else blank_accessor),
      registry = [(11, 1), (12, 2), (13, 3), (14, 4), (15, 5)], trace = []\<rparr>"

text \<open>
  The form root -> array addresses -> element group 0 -> control street, and a radio on
  the control whose handle is below the element group (container 21).
\<close>

definition addresses_node :: AbstractControl where
  "addresses_node = AbstractControl (Some root_node) True"

definition element_node :: AbstractControl where
  "element_node = AbstractControl (Some addresses_node) False"

definition street_handle :: NgControl where
  "street_handle =
     \<lparr>parent_ref = Some 21, control = Some (AbstractControl (Some element_node) False),
      path = Some [Str ''addresses'', Str ''0'', Str ''street'']\<rparr>"

definition street_world :: world where
  "street_world =
     blank_world\<lparr>containers := (\<lambda>r. if r = 21 then Some element_node else None),
       handles := (\<lambda>r. if r = 14 then street_handle else blank_handle),
       accessors := (\<lambda>r. if r = 4 then
                            blank_accessor\<lparr>control_ref := Some 14,
                              formControlName := Str ''street''\<rparr>
                          else blank_accessor)\<rparr>"

text \<open>
  Handles below the root: handle 15 has a path with an empty first segment, handle 16 a
  path of the one segment a, handle 17 the path g, x and handle 18 a path whose last
  segment is not set. Radio 5 has the formControlName a and radio 6 the formControlName
  b; radio 7 has the name x and no formControlName, radio 8 the name x and the
  formControlName x, radio 9 the formControlName street.
\<close>

definition below_root :: "jsstring list \<Rightarrow> NgControl" where
  "below_root p = \<lparr>parent_ref = Some 20, control = Some leaf_node, path = Some p\<rparr>"

definition odd_paths :: world where
  "odd_paths =
     blank_world\<lparr>containers := (\<lambda>r. if r = 20 then Some root_node else None),
       handles := (\<lambda>r. if r = 15 then below_root [Str '''', Str ''a'']
                        else if r = 16 then below_root [Str ''a'']
                        else if r = 17 then below_root [Str ''g'', Str ''x'']
                        else if r = 18 then below_root [Str ''g'', Null]
                        else blank_handle),
       accessors := (\<lambda>r. if r = 5 then
                            blank_accessor\<lparr>control_ref := Some 15, formControlName := Str ''a''\<rparr>
                          else if r = 6 then
                            blank_accessor\<lparr>control_ref := Some 16, formControlName := Str ''b''\<rparr>
                          else if r = 7 then blank_accessor\<lparr>name := Str ''x''\<rparr>
                          else if r = 8 then
                            blank_accessor\<lparr>name := Str ''x'', formControlName := Str ''x''\<rparr>
                          else if r = 9 then
                            blank_accessor\<lparr>control_ref := Some 18, formControlName := Str ''street''\<rparr>
                          else blank_accessor)\<rparr>"

text \<open>
  A radio with the formControlName b whose handle, below the root, has the path of an
  empty first segment followed by a and b.
\<close>

definition empty_first :: world where
  "empty_first =
     blank_world\<lparr>containers := (\<lambda>r. if r = 20 then Some root_node else None),
       handles := (\<lambda>r. if r = 19 then below_root [Str '''', Str ''a'', Str ''b'']
                        else blank_handle),
       accessors := (\<lambda>r. if r = 10 then
                            blank_accessor\<lparr>control_ref := Some 19, formControlName := Str ''b''\<rparr>
                          else blank_accessor)\<rparr>"

section \<open>Properties\<close>

subsection \<open>Writing a value\<close>

lemma strict_eq_iff: "strict_eq x y = (x = y \<and> x \<noteq> VNaN)"
  by (auto simp: strict_eq_def)

lemma writeValue_accessors:
  "accessors (writeValue a v w) =
     (accessors w)(a := (accessors w a)\<lparr>state := Some (strict_eq v (val (accessors w a)))\<rparr>)"
  by (simp add: writeValue_def Let_def)

lemma writeValue_trace:
  "trace (writeValue a v w) =
     trace w @ [SetProperty (nativeElement (accessors w a)) ''checked''
                  (VBool (strict_eq v (val (accessors w a))))]"
  by (simp add: writeValue_def Let_def)

lemma writeValue_frame:
  "handles (writeValue a v w) = handles w"
  "containers (writeValue a v w) = containers w"
  "registry (writeValue a v w) = registry w"
  by (simp_all add: writeValue_def Let_def)

text \<open>
  C5. writeValue is a total function of the world (it has no error result). For every
  input \<open>v\<close> it sets the accessor's state to the result of \<open>v === value\<close>, which is
  true iff \<open>v\<close> and the declared value are the same value of the same type (and not
  NaN); it passes that boolean to setProperty for the property checked of the accessor's
  element; a value of another type gives false. Nothing else changes.
\<close>

theorem writeValue_strict:
  "state (accessors (writeValue a v w) a) = Some (strict_eq v (val (accessors w a))) \<and>
   checked (writeValue a v w) a = (v = val (accessors w a) \<and> v \<noteq> VNaN) \<and>
   trace (writeValue a v w) =
     trace w @ [SetProperty (nativeElement (accessors w a)) ''checked''
                  (VBool (strict_eq v (val (accessors w a))))] \<and>
   (type_of v \<noteq> type_of (val (accessors w a)) \<longrightarrow> \<not> checked (writeValue a v w) a) \<and>
   registry (writeValue a v w) = registry w \<and>
   (\<forall>c. c \<noteq> a \<longrightarrow> accessors (writeValue a v w) c = accessors w c)"
  by (auto simp: writeValue_accessors writeValue_trace writeValue_frame checked_def strict_eq_iff)

text \<open>
  The spec's examples: the value red is checked by red and not by blue, and the string 1
  is not checked by the number 1.
\<close>

theorem writeValue_strict_witness:
  "checked (writeValue 1 (VStr ''red'') colours) 1 \<and>
   \<not> checked (writeValue 1 (VStr ''blue'') colours) 1 \<and>
   type_of (VNum 1) \<noteq>
     type_of (val (accessors
       (colours\<lparr>accessors := (accessors colours)(1 := radio 1 11 ''color'' (VStr ''1''))\<rparr>) 1)) \<and>
   \<not> checked (writeValue 1 (VNum 1)
       (colours\<lparr>accessors := (accessors colours)(1 := radio 1 11 ''color'' (VStr ''1''))\<rparr>)) 1 \<and>
   accessors (writeValue 1 (VStr ''red'') colours) 2 = accessors colours 2"
  using writeValue_strict [of 1 "VStr ''red''" colours]
        writeValue_strict [of 1 "VStr ''blue''" colours]
        writeValue_strict [of 1 "VNum 1"
          "colours\<lparr>accessors := (accessors colours)(1 := radio 1 11 ''color'' (VStr ''1''))\<rparr>"]
  by (simp add: colours_def radio_def blank_accessor_def)

subsection \<open>Selecting\<close>

lemma fireUncheck_accessors:
  "accessors (fireUncheck c v w) =
     (accessors w)(c := (accessors w c)\<lparr>state := Some (strict_eq v (val (accessors w c)))\<rparr>)"
  by (simp add: fireUncheck_def writeValue_accessors)

lemma fireUncheck_trace:
  "trace (fireUncheck c v w) = trace w @ uncheck_events w v c"
  by (simp add: fireUncheck_def writeValue_trace uncheck_events_def)

lemma fireUncheck_frame:
  "handles (fireUncheck c v w) = handles w"
  "containers (fireUncheck c v w) = containers w"
  "registry (fireUncheck c v w) = registry w"
  by (simp_all add: fireUncheck_def writeValue_frame)

lemma fireUncheck_fields:
  "val (accessors (fireUncheck c v w) x) = val (accessors w x)"
  "name (accessors (fireUncheck c v w) x) = name (accessors w x)"
  "control_ref (accessors (fireUncheck c v w) x) = control_ref (accessors w x)"
  "nativeElement (accessors (fireUncheck c v w) x) = nativeElement (accessors w x)"
  "onChange (accessors (fireUncheck c v w) x) = onChange (accessors w x)"
  by (simp_all add: fireUncheck_accessors)

lemma fireUncheck_state:
  "state (accessors (fireUncheck c v w) x) =
     (if x = c then Some (strict_eq v (val (accessors w c))) else state (accessors w x))"
  by (simp add: fireUncheck_accessors)

lemma isSameGroup_fireUncheck:
  "isSameGroup p a (fireUncheck c v w) = isSameGroup p a w"
  by (simp add: isSameGroup_def fireUncheck_frame fireUncheck_fields split: option.splits)

lemma notifies_fireUncheck: "notifies (fireUncheck c v w) a = notifies w a"
  by (rule ext) (simp add: notifies_def isSameGroup_fireUncheck)

lemma uncheck_events_fireUncheck:
  "uncheck_events (fireUncheck c v w) u = uncheck_events w u"
  by (rule ext) (simp add: uncheck_events_def fireUncheck_fields)

lemma isSameGroup_attached:
  "control_ref (accessors w a) = Some h \<Longrightarrow> \<exists>b. isSameGroup p a w = Inr b"
  by (auto simp: isSameGroup_def)

lemma select_step_attached:
  assumes "control_ref (accessors w a) = Some h"
  shows "select_step a p w =
           (None, if notifies w a p then fireUncheck (snd p) (val (accessors w a)) w else w)"
proof -
  from assms obtain b where b: "isSameGroup p a w = Inr b"
    using isSameGroup_attached by blast
  then show ?thesis by (auto simp: select_step_def notifies_def)
qed

lemma select_step_unresolved:
  "control (handles w (fst p)) = None \<Longrightarrow> select_step a p w = (None, w)"
  by (simp add: select_step_def isSameGroup_def)

lemma select_loop_no_error:
  "control_ref (accessors w a) = Some h \<Longrightarrow> fst (select_loop a cs w) = None"
proof (induction cs arbitrary: w)
  case Nil
  then show ?case by simp
next
  case (Cons p cs)
  then show ?case
    by (simp add: select_step_attached [OF Cons.prems] fireUncheck_fields)
qed

lemma select_loop_trace:
  "control_ref (accessors w a) = Some h \<Longrightarrow>
   trace (snd (select_loop a cs w)) =
     trace w @ concat (map (\<lambda>p. uncheck_events w (val (accessors w a)) (snd p))
                        (filter (notifies w a) cs))"
proof (induction cs arbitrary: w)
  case Nil
  then show ?case by simp
next
  case (Cons p cs)
  show ?case
  proof (cases "notifies w a p")
    case True
    let ?w1 = "fireUncheck (snd p) (val (accessors w a)) w"
    have "control_ref (accessors ?w1 a) = Some h"
      using Cons.prems by (simp add: fireUncheck_fields)
    from Cons.IH [OF this] True show ?thesis
      by (simp add: select_step_attached [OF Cons.prems] notifies_fireUncheck
          uncheck_events_fireUncheck fireUncheck_fields fireUncheck_trace)
  next
    case False
    with Cons.IH [OF Cons.prems] show ?thesis
      by (simp add: select_step_attached [OF Cons.prems])
  qed
qed

lemma select_loop_frame:
  "handles (snd (select_loop a cs w)) = handles w \<and>
   containers (snd (select_loop a cs w)) = containers w \<and>
   registry (snd (select_loop a cs w)) = registry w \<and>
   val (accessors (snd (select_loop a cs w)) x) = val (accessors w x) \<and>
   name (accessors (snd (select_loop a cs w)) x) = name (accessors w x) \<and>
   control_ref (accessors (snd (select_loop a cs w)) x) = control_ref (accessors w x)"
proof (induction cs arbitrary: w)
  case Nil
  then show ?case by simp
next
  case (Cons p cs)
  show ?case
  proof (cases "select_step a p w")
    case (Pair r w1)
    then have w1: "w1 = w \<or> w1 = fireUncheck (snd p) (val (accessors w a)) w"
      by (auto simp: select_step_def split: sum.splits if_splits)
    show ?thesis
    proof (cases r)
      case None
      with Pair w1 Cons.IH [of w1] show ?thesis
        by (auto simp: fireUncheck_frame fireUncheck_fields)
    next
      case (Some e)
      with Pair w1 show ?thesis
        by (auto simp: fireUncheck_frame fireUncheck_fields)
    qed
  qed
qed

lemma select_loop_state:
  "control_ref (accessors w a) = Some h \<Longrightarrow>
   state (accessors (snd (select_loop a cs w)) x) =
     (if x \<in> snd ` set (filter (notifies w a) cs)
      then Some (strict_eq (val (accessors w a)) (val (accessors w x)))
      else state (accessors w x))"
proof (induction cs arbitrary: w)
  case Nil
  then show ?case by simp
next
  case (Cons p cs)
  show ?case
  proof (cases "notifies w a p")
    case True
    let ?w1 = "fireUncheck (snd p) (val (accessors w a)) w"
    have "control_ref (accessors ?w1 a) = Some h"
      using Cons.prems by (simp add: fireUncheck_fields)
    from Cons.IH [OF this] True show ?thesis
      by (simp add: select_step_attached [OF Cons.prems] notifies_fireUncheck
          fireUncheck_fields fireUncheck_state)
  next
    case False
    with Cons.IH [OF Cons.prems] show ?thesis
      by (simp add: select_step_attached [OF Cons.prems])
  qed
qed

lemma uncheck_calls_append: "uncheck_calls (es @ fs) = uncheck_calls es @ uncheck_calls fs"
  by (induction es rule: uncheck_calls.induct) simp_all

lemma uncheck_calls_events:
  "uncheck_calls (concat (map (\<lambda>p. uncheck_events w v (snd p)) ps)) = map (\<lambda>p. (snd p, v)) ps"
  by (induction ps) (simp_all add: uncheck_events_def)


lemma emitted_append: "trace w' = trace w @ es \<Longrightarrow> emitted w w' = es"
  by (simp add: emitted_def)

lemma length_filter_others:
  "distinct xs \<Longrightarrow> a \<in> set xs \<Longrightarrow> length (filter (\<lambda>c. c \<noteq> a) xs) = length xs - 1"
proof (induction xs)
  case Nil
  then show ?case by simp
next
  case (Cons x xs)
  show ?case
  proof (cases "x = a")
    case True
    with Cons.prems have "\<forall>c \<in> set xs. c \<noteq> a" by auto
    then have "filter (\<lambda>c. c \<noteq> a) xs = xs" by (simp add: filter_id_conv)
    with True show ?thesis by simp
  next
    case False
    with Cons.prems have "a \<in> set xs" "distinct xs" by auto
    with Cons.IH have "length (filter (\<lambda>c. c \<noteq> a) xs) = length xs - 1" by simp
    moreover from \<open>a \<in> set xs\<close> have "0 < length xs" by (rule length_pos_if_in_set)
    ultimately show ?thesis using False by simp
  qed
qed

lemma notifies_iff:
  "control_ref (accessors w a) = Some h \<Longrightarrow>
   notifies w a p =
     ((control (handles w (fst p)) \<noteq> None \<and> shares_parent_and_name w a p) \<and> snd p \<noteq> a)"
  by (auto simp: notifies_def isSameGroup_def shares_parent_and_name_def)

lemma notified_pairings:
  "control_ref (accessors w a) = Some h \<Longrightarrow>
   filter (notifies w a) (registry w) = filter (\<lambda>p. snd p \<noteq> a) (group_pairings w a)"
  by (simp add: group_pairings_def notifies_iff cong: filter_cong)

lemma select_loop_unmatched:
  "control_ref (accessors w a) = Some h \<Longrightarrow> filter (notifies w a) cs = [] \<Longrightarrow>
   select_loop a cs w = (None, w)"
proof (induction cs)
  case Nil
  then show ?case by simp
next
  case (Cons p cs)
  from Cons.prems(2) have "\<not> notifies w a p" "filter (notifies w a) cs = []"
    by (auto split: if_splits)
  with Cons.IH Cons.prems(1) show ?case
    by (simp add: select_step_attached [OF Cons.prems(1)])
qed

lemma select_loop_detached:
  "control_ref (accessors w a) = None \<Longrightarrow> snd (select_loop a cs w) = w"
proof (induction cs)
  case Nil
  then show ?case by simp
next
  case (Cons p cs)
  have "select_step a p w = (Some TypeError, w) \<or> select_step a p w = (None, w)"
    using Cons.prems by (simp add: select_step_def isSameGroup_def)
  with Cons show ?case by auto
qed

lemma group_pairings_detached:
  "control_ref (accessors w a) = None \<Longrightarrow> group_pairings w a = []"
  by (simp add: group_pairings_def shares_parent_and_name_def)

text \<open>
  C1, as amended. In every registry, select(a) calls fireUncheck with the value of \<open>a\<close>
  on exactly the accessors of the pairings that have a resolved control and share the
  parent of the handle of \<open>a\<close> and the name of \<open>a\<close>, \<open>a\<close> itself left out, in registry
  order; pairings of other groups and pairings with an unresolved control are not
  notified. select(a) does not fail when \<open>a\<close> has its handle. When these pairings hold
  N distinct accessors and \<open>a\<close> is one of them, N - 1 calls are made. When there is no
  pairing to notify, the world is left as it was.
\<close>

theorem select_notifies_others:
  "uncheck_calls (emitted w (snd (select a w))) =
     map (\<lambda>p. (snd p, val (accessors w a))) (filter (\<lambda>p. snd p \<noteq> a) (group_pairings w a)) \<and>
   (control_ref (accessors w a) \<noteq> None \<longrightarrow> fst (select a w) = None) \<and>
   (distinct (map snd (group_pairings w a)) \<and> a \<in> snd ` set (group_pairings w a) \<longrightarrow>
      length (filter (\<lambda>p. snd p \<noteq> a) (group_pairings w a)) = length (group_pairings w a) - 1) \<and>
   (filter (\<lambda>p. snd p \<noteq> a) (group_pairings w a) = [] \<longrightarrow> snd (select a w) = w) \<and>
   ((\<forall>p \<in> set (registry w). snd p = c \<longrightarrow> control (handles w (fst p)) = None) \<longrightarrow>
      c \<notin> fst ` set (uncheck_calls (emitted w (snd (select a w)))))"
proof -
  have calls: "uncheck_calls (emitted w (snd (select a w))) =
     map (\<lambda>p. (snd p, val (accessors w a))) (filter (\<lambda>p. snd p \<noteq> a) (group_pairings w a))"
  proof (cases "control_ref (accessors w a)")
    case None
    then show ?thesis
      by (simp add: select_def select_loop_detached group_pairings_detached emitted_def)
  next
    case (Some h)
    have "trace (snd (select a w)) =
        trace w @ concat (map (\<lambda>p. uncheck_events w (val (accessors w a)) (snd p))
                           (filter (\<lambda>p. snd p \<noteq> a) (group_pairings w a)))"
      using select_loop_trace [OF Some, of "registry w"]
      by (simp add: select_def notified_pairings [OF Some])
    then show ?thesis
      by (simp add: emitted_append uncheck_calls_events)
  qed
  have noerr: "fst (select a w) = None" if "control_ref (accessors w a) \<noteq> None"
    using that by (auto simp: select_def select_loop_no_error)
  have len: "length (filter (\<lambda>p. snd p \<noteq> a) (group_pairings w a)) =
      length (group_pairings w a) - 1"
    if "distinct (map snd (group_pairings w a))" "a \<in> snd ` set (group_pairings w a)"
  proof -
    have "length (filter (\<lambda>c. c \<noteq> a) (map snd (group_pairings w a))) =
        length (map snd (group_pairings w a)) - 1"
      using that by (intro length_filter_others) simp_all
    then show ?thesis by (simp add: filter_map comp_def)
  qed
  have none: "snd (select a w) = w" if "filter (\<lambda>p. snd p \<noteq> a) (group_pairings w a) = []"
  proof (cases "control_ref (accessors w a)")
    case None
    then show ?thesis by (simp add: select_def select_loop_detached)
  next
    case (Some h)
    with that have "filter (notifies w a) (registry w) = []"
      by (simp add: notified_pairings)
    from select_loop_unmatched [OF Some this] show ?thesis by (simp add: select_def)
  qed
  have skip: "c \<notin> fst ` set (uncheck_calls (emitted w (snd (select a w))))"
    if "\<forall>p \<in> set (registry w). snd p = c \<longrightarrow> control (handles w (fst p)) = None"
    using that unfolding calls by (auto simp: group_pairings_def)
  from calls noerr len none skip show ?thesis by blast
qed

text \<open>
  In the registry of five radios, selecting radio 1 notifies radio 4 only: not radio 1
  itself, not radio 2 (unresolved control), not radio 3 (other name), not radio 5 (other
  parent). Among red, green and blue alone, selecting red notifies green and blue.
\<close>

theorem select_notifies_others_witness:
  "group_pairings mixed 1 = [(11, 1), (14, 4)] \<and>
   control_ref (accessors mixed 1) = Some 11 \<and>
   fst (select 1 mixed) = None \<and>
   uncheck_calls (emitted mixed (snd (select 1 mixed))) = [(4, VStr ''red'')] \<and>
   length (filter (\<lambda>p. snd p \<noteq> 1) (group_pairings mixed 1)) = 1 \<and>
   filter (\<lambda>p. snd p = 2) (registry mixed) = [(12, 2)] \<and>
   control (handles mixed 12) = None \<and>
   2 \<notin> fst ` set (uncheck_calls (emitted mixed (snd (select 1 mixed)))) \<and>
   uncheck_calls (emitted colours (snd (select 1 colours))) = [(2, VStr ''red''), (3, VStr ''red'')]"
  using select_notifies_others [of mixed 1 2] select_notifies_others [of colours 1 0]
  by (simp add: mixed_def colours_def radio_def blank_accessor_def resolved_handle_def
      unresolved_handle_def shares_parent_and_name_def group_pairings_def)

text \<open>
  C1 as stated fails: two radios share the parent and the name, but the handle of the
  second has no control yet; selecting the first notifies nobody, not the one other member.
\<close>

theorem select_skips_unresolved_member:
  "filter (shares_parent_and_name half_resolved 1) (registry half_resolved) = [(11, 1), (12, 2)] \<and>
   distinct (map snd (registry half_resolved)) \<and>
   select 1 half_resolved = (None, half_resolved) \<and>
   uncheck_calls (emitted half_resolved (snd (select 1 half_resolved))) = []"
  by (simp add: half_resolved_def colours_def select_def select_step_def isSameGroup_def
      shares_parent_and_name_def radio_def blank_accessor_def resolved_handle_def
      unresolved_handle_def emitted_def)

lemma group_members_select:
  "group_members (snd (select_loop a cs w)) a = group_members w a"
proof -
  have "isSameGroup p a (snd (select_loop a cs w)) = isSameGroup p a w" for p
    using select_loop_frame [of a cs w]
    by (simp add: isSameGroup_def split: option.splits)
  then show ?thesis
    using select_loop_frame [of a cs w] by (simp add: group_members_def)
qed

lemma other_member_notified:
  "c \<in> set (group_members w a) \<Longrightarrow> c \<noteq> a \<Longrightarrow>
   c \<in> snd ` set (filter (notifies w a) (registry w))"
  by (auto simp: group_members_def notifies_def)

text \<open>
  C3, as amended. select(a) completes when \<open>a\<close> has its handle. Once it has completed,
  every other accessor of the group of \<open>a\<close> (the pairings that \_isSameGroup accepts:
  resolved control, the parent of the handle of \<open>a\<close>, the name of \<open>a\<close>) is checked iff
  its declared value is strictly equal to the value of \<open>a\<close>. So when no other member
  declares a value strictly equal to the value of \<open>a\<close>, at most one member of the group
  is checked.
\<close>

theorem select_unchecks_unequal:
  "(control_ref (accessors w a) \<noteq> None \<longrightarrow> fst (select a w) = None) \<and>
   (fst (select a w) = None \<longrightarrow>
      group_members (snd (select a w)) a = group_members w a \<and>
      (\<forall>c \<in> set (group_members w a). c \<noteq> a \<longrightarrow>
         checked (snd (select a w)) c = strict_eq (val (accessors w a)) (val (accessors w c))) \<and>
      ((\<forall>c \<in> set (group_members w a). c \<noteq> a \<longrightarrow>
          \<not> strict_eq (val (accessors w a)) (val (accessors w c))) \<longrightarrow>
       (\<forall>c \<in> set (group_members w a). \<forall>d \<in> set (group_members w a).
          checked (snd (select a w)) c \<and> checked (snd (select a w)) d \<longrightarrow> c = d)))"
proof (cases "control_ref (accessors w a)")
  case None
  then have "group_members w a = []"
    by (simp add: group_members_def isSameGroup_def)
  then show ?thesis
    by (simp add: None select_def group_members_select)
next
  case (Some h)
  have noerr: "fst (select a w) = None"
    using Some by (simp add: select_def select_loop_no_error)
  have grp: "group_members (snd (select a w)) a = group_members w a"
    by (simp add: select_def group_members_select)
  have chk: "checked (snd (select a w)) c = strict_eq (val (accessors w a)) (val (accessors w c))"
    if "c \<in> set (group_members w a)" "c \<noteq> a" for c
    using other_member_notified [OF that] select_loop_state [OF Some, of "registry w" c]
    by (simp add: select_def checked_def)
  have one: "c = d"
    if uneq: "\<forall>c \<in> set (group_members w a). c \<noteq> a \<longrightarrow>
             \<not> strict_eq (val (accessors w a)) (val (accessors w c))"
      and c: "c \<in> set (group_members w a)" "checked (snd (select a w)) c"
      and d: "d \<in> set (group_members w a)" "checked (snd (select a w)) d" for c d
  proof -
    have "c = a" using uneq c chk by blast
    moreover have "d = a" using uneq d chk by blast
    ultimately show ?thesis by simp
  qed
  from noerr grp chk one show ?thesis by blast
qed

text \<open>Selecting red among red, green and blue leaves green and blue unchecked.\<close>

theorem select_unchecks_unequal_witness:
  "control_ref (accessors colours 1) = Some 11 \<and>
   group_members colours 1 = [1, 2, 3] \<and>
   \<not> strict_eq (val (accessors colours 1)) (val (accessors colours 2)) \<and>
   \<not> strict_eq (val (accessors colours 1)) (val (accessors colours 3)) \<and>
   fst (select 1 colours) = None \<and>
   \<not> checked (snd (select 1 colours)) 2 \<and>
   \<not> checked (snd (select 1 colours)) 3"
  using select_unchecks_unequal [of colours 1]
  by (simp add: colours_def radio_def blank_accessor_def resolved_handle_def
      group_members_def isSameGroup_def strict_eq_def)

text \<open>
  C3 as stated fails: of three radios of one group that all declare the value red,
  selecting the first leaves the second and the third both checked.
\<close>

theorem select_leaves_two_checked:
  "group_members (snd (select 1 all_red)) 1 = [1, 2, 3] \<and>
   filter (shares_parent_and_name all_red 1) (registry all_red) = registry all_red \<and>
   checked (snd (select 1 all_red)) 2 \<and>
   checked (snd (select 1 all_red)) 3"
  by (simp add: all_red_def colours_def radio_def blank_accessor_def resolved_handle_def
      group_members_def isSameGroup_def strict_eq_def select_def select_step_def
      fireUncheck_def writeValue_def checked_def shares_parent_and_name_def)

lemma select_step_cases:
  "select_step a p w = (Some TypeError, w) \<or> select_step a p w = (None, w) \<or>
   (notifies w a p \<and> select_step a p w = (None, fireUncheck (snd p) (val (accessors w a)) w))"
  by (auto simp: select_step_def notifies_def isSameGroup_def split: option.splits)

lemma notifies_resolved: "notifies w a p \<Longrightarrow> control (handles w (fst p)) \<noteq> None"
  by (auto simp: notifies_def isSameGroup_def split: if_splits)

lemma select_loop_skips:
  "\<forall>p \<in> set cs. snd p = c \<longrightarrow> control (handles w (fst p)) = None \<Longrightarrow>
   accessors (snd (select_loop a cs w)) c = accessors w c \<and>
   (\<exists>es. trace (snd (select_loop a cs w)) = trace w @ es \<and> c \<notin> fst ` set (uncheck_calls es))"
proof (induction cs arbitrary: w)
  case Nil
  then show ?case by simp
next
  case (Cons p cs)
  from select_step_cases [of a p w] consider
      (err) "select_step a p w = (Some TypeError, w)"
    | (skip) "select_step a p w = (None, w)"
    | (fire) "notifies w a p" "select_step a p w = (None, fireUncheck (snd p) (val (accessors w a)) w)"
    by blast
  then show ?case
  proof cases
    case err
    then show ?thesis by simp
  next
    case skip
    with Cons.IH [of w] Cons.prems show ?thesis by simp
  next
    case fire
    let ?w1 = "fireUncheck (snd p) (val (accessors w a)) w"
    from fire(1) Cons.prems have ne: "snd p \<noteq> c"
      using notifies_resolved by fastforce
    have "\<forall>p \<in> set cs. snd p = c \<longrightarrow> control (handles ?w1 (fst p)) = None"
      using Cons.prems by (simp add: fireUncheck_frame)
    from Cons.IH [OF this] obtain es where
      acc: "accessors (snd (select_loop a cs ?w1)) c = accessors ?w1 c" and
      es: "trace (snd (select_loop a cs ?w1)) = trace ?w1 @ es" "c \<notin> fst ` set (uncheck_calls es)"
      by blast
    have "accessors (snd (select_loop a (p # cs) w)) c = accessors w c"
      using fire(2) acc ne by (simp add: fireUncheck_accessors)
    moreover have "trace (snd (select_loop a (p # cs) w)) =
        trace w @ (uncheck_events w (val (accessors w a)) (snd p) @ es)"
      using fire(2) es(1) by (simp add: fireUncheck_trace)
    moreover have "c \<notin> fst ` set (uncheck_calls (uncheck_events w (val (accessors w a)) (snd p) @ es))"
      using es(2) ne by (simp add: uncheck_calls_append uncheck_events_def)
    ultimately show ?thesis by blast
  qed
qed

text \<open>
  C10. The callback of select does nothing for a pairing whose handle has an unresolved
  control, whatever its parent and name are. An accessor all of whose pairings are such
  is left as it was by select(a) and receives no fireUncheck.
\<close>

theorem select_skips_unresolved:
  "(control (handles w (fst p)) = None \<longrightarrow> select_step a p w = (None, w)) \<and>
   ((\<forall>p \<in> set (registry w). snd p = c \<longrightarrow> control (handles w (fst p)) = None) \<longrightarrow>
      accessors (snd (select a w)) c = accessors w c \<and>
      c \<notin> fst ` set (uncheck_calls (emitted w (snd (select a w)))))"
proof -
  have "accessors (snd (select a w)) c = accessors w c \<and>
      c \<notin> fst ` set (uncheck_calls (emitted w (snd (select a w))))"
    if "\<forall>p \<in> set (registry w). snd p = c \<longrightarrow> control (handles w (fst p)) = None"
  proof -
    from select_loop_skips [OF that, of a] obtain es where
      "accessors (snd (select a w)) c = accessors w c"
      "trace (snd (select a w)) = trace w @ es" "c \<notin> fst ` set (uncheck_calls es)"
      by (auto simp: select_def)
    then show ?thesis by (simp add: emitted_append)
  qed
  then show ?thesis by (simp add: select_step_unresolved)
qed

text \<open>
  The second radio shares the parent and the name of the first, but its handle has no
  control: selecting the first does not notify it.
\<close>

theorem select_skips_unresolved_witness:
  "control (handles half_resolved (fst (12, 2))) = None \<and>
   shares_parent_and_name half_resolved 1 (12, 2) \<and>
   select_step 1 (12, 2) half_resolved = (None, half_resolved) \<and>
   filter (\<lambda>p. snd p = 2) (registry half_resolved) = [(12, 2)] \<and>
   accessors (snd (select 1 half_resolved)) 2 = accessors half_resolved 2 \<and>
   2 \<notin> fst ` set (uncheck_calls (emitted half_resolved (snd (select 1 half_resolved))))"
  using select_skips_unresolved [of half_resolved "(12, 2)" 1 2]
  by (simp add: half_resolved_def colours_def unresolved_handle_def resolved_handle_def
      shares_parent_and_name_def radio_def blank_accessor_def)

lemma isSameGroup_trace: "isSameGroup p a (w\<lparr>trace := t\<rparr>) = isSameGroup p a w"
  by (simp add: isSameGroup_def split: option.splits)

lemma fireUncheck_on_trace:
  "fireUncheck c v (w\<lparr>trace := t\<rparr>) = (fireUncheck c v w)\<lparr>trace := t @ uncheck_events w v c\<rparr>"
  by (simp add: fireUncheck_def writeValue_def Let_def uncheck_events_def)

lemma select_step_on_trace:
  "select_step a p (w\<lparr>trace := t\<rparr>) =
     (fst (select_step a p w),
      (snd (select_step a p w))\<lparr>trace := t @ emitted w (snd (select_step a p w))\<rparr>)"
  by (cases "isSameGroup p a w")
     (auto simp: select_step_def isSameGroup_trace fireUncheck_on_trace emitted_def
        fireUncheck_trace)

lemma select_step_extends: "\<exists>es. trace (snd (select_step a p w)) = trace w @ es"
  using select_step_cases [of a p w] by (auto simp: fireUncheck_trace)

lemma select_loop_extends: "\<exists>es. trace (snd (select_loop a cs w)) = trace w @ es"
proof (induction cs arbitrary: w)
  case Nil
  then show ?case by simp
next
  case (Cons p cs)
  obtain r w1 where s: "select_step a p w = (r, w1)" by (cases "select_step a p w")
  with select_step_extends [of a p w] obtain es where es: "trace w1 = trace w @ es" by auto
  show ?case
  proof (cases r)
    case None
    from Cons.IH [of w1] obtain fs where "trace (snd (select_loop a cs w1)) = trace w1 @ fs" ..
    with s None es show ?thesis by simp
  next
    case (Some e)
    with s es show ?thesis by simp
  qed
qed

lemma select_loop_on_trace:
  "select_loop a cs (w\<lparr>trace := t\<rparr>) =
     (fst (select_loop a cs w),
      (snd (select_loop a cs w))\<lparr>trace := t @ emitted w (snd (select_loop a cs w))\<rparr>)"
proof (induction cs arbitrary: w t)
  case Nil
  then show ?case by (simp add: emitted_def)
next
  case (Cons p cs)
  obtain r w1 where s: "select_step a p w = (r, w1)" by (cases "select_step a p w")
  with select_step_extends [of a p w] obtain es where es: "trace w1 = trace w @ es" by auto
  have step: "select_step a p (w\<lparr>trace := t\<rparr>) = (r, w1\<lparr>trace := t @ es\<rparr>)"
    using s es by (simp add: select_step_on_trace emitted_append)
  show ?case
  proof (cases r)
    case None
    from select_loop_extends [of a cs w1] obtain fs where
      fs: "trace (snd (select_loop a cs w1)) = trace w1 @ fs" ..
    have "select_loop a (p # cs) (w\<lparr>trace := t\<rparr>) = select_loop a cs (w1\<lparr>trace := t @ es\<rparr>)"
      using step None by simp
    also have "\<dots> = (fst (select_loop a cs w1),
        (snd (select_loop a cs w1))\<lparr>trace := (t @ es) @ emitted w1 (snd (select_loop a cs w1))\<rparr>)"
      by (rule Cons.IH)
    also have "\<dots> = (fst (select_loop a (p # cs) w),
        (snd (select_loop a (p # cs) w))\<lparr>trace := t @ emitted w (snd (select_loop a (p # cs) w))\<rparr>)"
      using s None es fs by (simp add: emitted_def)
    finally show ?thesis .
  next
    case (Some e)
    with s es step show ?thesis by (simp add: emitted_def)
  qed
qed

subsection \<open>The change hook\<close>

text \<open>
  C6. registerOnChange with a callback installs the hook around that callback. Whenever
  the hook around a callback is invoked, it emits first the call of the callback with the
  accessor's declared value and then exactly the events of select(self): the callback is
  called before any sibling receives fireUncheck. The hook fails iff select does, and
  leaves the accessors as select does.
\<close>

theorem onChange_calls_fn_first:
  "onChange (accessors (registerOnChange a f w) a) = Some f \<and>
   (onChange (accessors w' a) = Some f \<longrightarrow>
      fst (call_onChange a w') = fst (select a w') \<and>
      emitted w' (snd (call_onChange a w')) =
        FnCall f (val (accessors w' a)) # emitted w' (snd (select a w')) \<and>
      accessors (snd (call_onChange a w')) = accessors (snd (select a w')) \<and>
      registry (snd (call_onChange a w')) = registry w')"
proof -
  have reg: "onChange (accessors (registerOnChange a f w) a) = Some f"
    by (simp add: registerOnChange_def)
  have hook: "fst (call_onChange a w') = fst (select a w') \<and>
      emitted w' (snd (call_onChange a w')) =
        FnCall f (val (accessors w' a)) # emitted w' (snd (select a w')) \<and>
      accessors (snd (call_onChange a w')) = accessors (snd (select a w')) \<and>
      registry (snd (call_onChange a w')) = registry w'"
    if f: "onChange (accessors w' a) = Some f"
  proof -
    have "call_onChange a w' =
        select a (w'\<lparr>trace := trace w' @ [FnCall f (val (accessors w' a))]\<rparr>)"
      by (simp add: call_onChange_def f)
    also have "\<dots> = (fst (select a w'),
        (snd (select a w'))\<lparr>trace := (trace w' @ [FnCall f (val (accessors w' a))]) @
           emitted w' (snd (select a w'))\<rparr>)"
      by (simp add: select_def select_loop_on_trace)
    finally have eq: "call_onChange a w' = (fst (select a w'),
        (snd (select a w'))\<lparr>trace := (trace w' @ [FnCall f (val (accessors w' a))]) @
           emitted w' (snd (select a w'))\<rparr>)" .
    have "registry (snd (select a w')) = registry w'"
      using select_loop_frame [of a "registry w'" w'] by (simp add: select_def)
    with eq show ?thesis by (simp add: emitted_def)
  qed
  from reg hook show ?thesis by blast
qed

text \<open>
  The radio red with the callback 99, among red, green and blue: the hook calls the
  callback with red and then unchecks green and blue.
\<close>

theorem onChange_calls_fn_first_witness:
  "onChange (accessors (registerOnChange 1 99 colours) 1) = Some 99 \<and>
   fst (call_onChange 1 (registerOnChange 1 99 colours)) = None \<and>
   emitted (registerOnChange 1 99 colours) (snd (call_onChange 1 (registerOnChange 1 99 colours))) =
     [FnCall 99 (VStr ''red''),
      FireUncheck 2 (VStr ''red''), SetProperty 2 ''checked'' (VBool False),
      FireUncheck 3 (VStr ''red''), SetProperty 3 ''checked'' (VBool False)]"
  using onChange_calls_fn_first [of 1 99 colours "registerOnChange 1 99 colours"]
  by (simp add: registerOnChange_def colours_def radio_def blank_accessor_def
      resolved_handle_def select_def select_step_def isSameGroup_def fireUncheck_def
      writeValue_def strict_eq_def emitted_def)

subsection \<open>Removing\<close>

lemma remove_loop_cases:
  "k \<le> length xs \<Longrightarrow>
   ((\<forall>i<k. snd (xs ! i) \<noteq> a) \<and> remove_loop k a xs = xs) \<or>
   (\<exists>i<k. snd (xs ! i) = a \<and> (\<forall>j. i < j \<and> j < k \<longrightarrow> snd (xs ! j) \<noteq> a) \<and>
      remove_loop k a xs = splice1 i xs)"
proof (induction k)
  case 0
  then show ?case by simp
next
  case (Suc k)
  show ?case
  proof (cases "snd (xs ! k) = a")
    case True
    then have "snd (xs ! k) = a \<and> (\<forall>j. k < j \<and> j < Suc k \<longrightarrow> snd (xs ! j) \<noteq> a) \<and>
        remove_loop (Suc k) a xs = splice1 k xs"
      by simp
    then show ?thesis by blast
  next
    case False
    from Suc have "((\<forall>i<k. snd (xs ! i) \<noteq> a) \<and> remove_loop k a xs = xs) \<or>
      (\<exists>i<k. snd (xs ! i) = a \<and> (\<forall>j. i < j \<and> j < k \<longrightarrow> snd (xs ! j) \<noteq> a) \<and>
         remove_loop k a xs = splice1 i xs)" by simp
    then show ?thesis
    proof
      assume "(\<forall>i<k. snd (xs ! i) \<noteq> a) \<and> remove_loop k a xs = xs"
      with False show ?thesis by (auto simp: less_Suc_eq)
    next
      assume "\<exists>i<k. snd (xs ! i) = a \<and> (\<forall>j. i < j \<and> j < k \<longrightarrow> snd (xs ! j) \<noteq> a) \<and>
         remove_loop k a xs = splice1 i xs"
      then obtain i where i: "i < k" "snd (xs ! i) = a"
        "\<forall>j. i < j \<and> j < k \<longrightarrow> snd (xs ! j) \<noteq> a" "remove_loop k a xs = splice1 i xs"
        by blast
      from i(3) False have "\<forall>j. i < j \<and> j < Suc k \<longrightarrow> snd (xs ! j) \<noteq> a"
        by (auto simp: less_Suc_eq)
      with i(1,2,4) False have "i < Suc k \<and> snd (xs ! i) = a \<and>
          (\<forall>j. i < j \<and> j < Suc k \<longrightarrow> snd (xs ! j) \<noteq> a) \<and>
          remove_loop (Suc k) a xs = splice1 i xs"
        by simp
      then show ?thesis by blast
    qed
  qed
qed

lemma snd_image_nth: "(a \<in> snd ` set xs) = (\<exists>i<length xs. snd (xs ! i) = a)"
proof
  assume "a \<in> snd ` set xs"
  then obtain p where "p \<in> set xs" "snd p = a" by auto
  then show "\<exists>i<length xs. snd (xs ! i) = a"
    by (auto simp: in_set_conv_nth)
next
  assume "\<exists>i<length xs. snd (xs ! i) = a"
  then obtain i where "i < length xs" "snd (xs ! i) = a" by blast
  then show "a \<in> snd ` set xs"
    using nth_mem [of i xs] by (auto simp: image_iff)
qed

lemma remove_pairs_cases:
  "(a \<notin> snd ` set xs \<and> remove_pairs a xs = xs) \<or>
   (\<exists>i<length xs. snd (xs ! i) = a \<and> (\<forall>j. i < j \<and> j < length xs \<longrightarrow> snd (xs ! j) \<noteq> a) \<and>
      remove_pairs a xs = splice1 i xs)"
proof -
  have "(\<forall>i<length xs. snd (xs ! i) \<noteq> a) = (a \<notin> snd ` set xs)"
    by (simp add: snd_image_nth)
  with remove_loop_cases [of "length xs" xs a] show ?thesis
    by (simp add: remove_pairs_def)
qed

text \<open>remove deletes the last pairing of the accessor and nothing else.\<close>

lemma remove_pairs_last:
  assumes "a \<in> snd ` set xs"
  shows "\<exists>ys h zs. xs = ys @ (h, a) # zs \<and> a \<notin> snd ` set zs \<and> remove_pairs a xs = ys @ zs"
proof -
  from assms remove_pairs_cases [of a xs] obtain i where i: "i < length xs" "snd (xs ! i) = a"
    "\<forall>j. i < j \<and> j < length xs \<longrightarrow> snd (xs ! j) \<noteq> a" "remove_pairs a xs = splice1 i xs"
    by blast
  let ?ys = "take i xs" and ?zs = "drop (Suc i) xs"
  have split: "xs = ?ys @ (fst (xs ! i), a) # ?zs"
    using id_take_nth_drop [OF i(1)] i(2) by (cases "xs ! i") simp
  have "a \<notin> snd ` set ?zs"
  proof
    assume "a \<in> snd ` set ?zs"
    then obtain j where j: "j < length ?zs" "snd (?zs ! j) = a"
      unfolding snd_image_nth by blast
    then have "Suc i + j < length xs" "snd (xs ! (Suc i + j)) = a"
      by (simp_all add: nth_drop)
    with i(3) show False by simp
  qed
  moreover have "remove_pairs a xs = ?ys @ ?zs"
    using i(4) by (simp add: splice1_def)
  ultimately show ?thesis using split by blast
qed

lemma remove_pairs_absent: "a \<notin> snd ` set xs \<Longrightarrow> remove_pairs a xs = xs"
  using remove_pairs_cases [of a xs] by (auto simp: snd_image_nth)

lemma splice1_split:
  "i < length xs \<Longrightarrow> xs = take i xs @ xs ! i # drop (Suc i) xs"
  by (rule id_take_nth_drop)

lemma splice1_distinct:
  assumes "distinct (map snd xs)" "i < length xs"
  shows "distinct (map snd (splice1 i xs)) \<and> snd (xs ! i) \<notin> snd ` set (splice1 i xs)"
proof -
  have "distinct (map snd (take i xs @ xs ! i # drop (Suc i) xs))"
    using assms splice1_split [of i xs] by simp
  then show ?thesis by (auto simp: splice1_def)
qed

lemma remove_pairs_distinct:
  assumes "distinct (map snd xs)"
  shows "distinct (map snd (remove_pairs a xs)) \<and> a \<notin> snd ` set (remove_pairs a xs)"
proof -
  from remove_pairs_cases [of a xs] show ?thesis
  proof
    assume "a \<notin> snd ` set xs \<and> remove_pairs a xs = xs"
    with assms show ?thesis by simp
  next
    assume "\<exists>i<length xs. snd (xs ! i) = a \<and>
        (\<forall>j. i < j \<and> j < length xs \<longrightarrow> snd (xs ! j) \<noteq> a) \<and> remove_pairs a xs = splice1 i xs"
    then obtain i where i: "i < length xs" "snd (xs ! i) = a" "remove_pairs a xs = splice1 i xs"
      by blast
    from splice1_distinct [OF assms i(1)] i(2,3) show ?thesis by simp
  qed
qed

lemma run_append: "run (xs @ ys) w = run ys (run xs w)"
  by (induction xs arbitrary: w) simp_all

lemma run_distinct:
  "distinct (map snd (registry w)) \<Longrightarrow> once_per_attach ops (registry w) \<Longrightarrow>
   distinct (map snd (registry (run ops w)))"
proof (induction ops arbitrary: w)
  case Nil
  then show ?case by simp
next
  case (Cons x ops)
  show ?case
  proof (cases x)
    case (Add c a)
    with Cons.prems have "distinct (map snd (registry (add c a w)))"
      "once_per_attach ops (registry (add c a w))"
      by (simp_all add: add_def)
    with Cons.IH Add show ?thesis by simp
  next
    case (Remove a)
    with Cons.prems have "distinct (map snd (registry (remove a w)))"
      "once_per_attach ops (registry (remove a w))"
      by (simp_all add: remove_def remove_pairs_distinct)
    with Cons.IH Remove show ?thesis by simp
  qed
qed

text \<open>
  C7, as amended. For every registry: remove of an accessor without a pairing changes
  nothing, and remove of an accessor with pairings deletes exactly one of them, the last
  one in the registry, and leaves all other pairings in place and in order. Start from a
  registry with at most one pairing per accessor and run any sequence of add and remove
  operations in which add is never called for an accessor that has a pairing at that
  moment: after a following remove(a) the registry has no pairing with the accessor
  \<open>a\<close>, and another remove(a) changes nothing.
\<close>

theorem remove_once_attached:
  "(b \<notin> snd ` set (registry v) \<longrightarrow> remove b v = v) \<and>
   (b \<in> snd ` set (registry v) \<longrightarrow>
      (\<exists>ys h zs. registry v = ys @ (h, b) # zs \<and> b \<notin> snd ` set zs \<and>
         remove b v = v\<lparr>registry := ys @ zs\<rparr>)) \<and>
   (distinct (map snd (registry w)) \<and> once_per_attach ops (registry w) \<longrightarrow>
      a \<notin> snd ` set (registry (run (ops @ [Remove a]) w)) \<and>
      remove a (run (ops @ [Remove a]) w) = run (ops @ [Remove a]) w)"
proof -
  have absent: "remove b v = v" if "b \<notin> snd ` set (registry v)"
    using that by (simp add: remove_def remove_pairs_absent)
  have last: "\<exists>ys h zs. registry v = ys @ (h, b) # zs \<and> b \<notin> snd ` set zs \<and>
         remove b v = v\<lparr>registry := ys @ zs\<rparr>" if "b \<in> snd ` set (registry v)"
  proof -
    from remove_pairs_last [OF that] obtain ys h zs where
      "registry v = ys @ (h, b) # zs" "b \<notin> snd ` set zs"
      "remove_pairs b (registry v) = ys @ zs"
      by blast
    then have "registry v = ys @ (h, b) # zs \<and> b \<notin> snd ` set zs \<and>
        remove b v = v\<lparr>registry := ys @ zs\<rparr>"
      by (simp add: remove_def)
    then show ?thesis by blast
  qed
  have once: "a \<notin> snd ` set (registry (run (ops @ [Remove a]) w)) \<and>
      remove a (run (ops @ [Remove a]) w) = run (ops @ [Remove a]) w"
    if "distinct (map snd (registry w))" "once_per_attach ops (registry w)"
  proof -
    let ?w1 = "run ops w"
    have d: "distinct (map snd (registry ?w1))"
      using that by (rule run_distinct)
    have r: "run (ops @ [Remove a]) w = remove a ?w1"
      by (simp add: run_append)
    have gone: "a \<notin> snd ` set (registry (remove a ?w1))"
      using remove_pairs_distinct [OF d, of a] by (simp add: remove_def)
    then have "remove a (remove a ?w1) = remove a ?w1"
      by (simp add: remove_def remove_pairs_absent)
    with gone r show ?thesis by simp
  qed
  from absent last once show ?thesis by blast
qed

text \<open>
  With the pairings of 1, 2 and 1 again, remove(1) deletes the last pairing and keeps the
  first. Attach 1 and 2, detach 1, attach 1 again and detach it: only the pairing of 2
  is left.
\<close>

theorem remove_once_attached_witness:
  "1 \<in> snd ` set (registry (run [Add 11 1, Add 12 2, Add 13 1] blank_world)) \<and>
   registry (run [Add 11 1, Add 12 2, Add 13 1] blank_world) = [(11, 1), (12, 2)] @ (13, 1) # [] \<and>
   registry (remove 1 (run [Add 11 1, Add 12 2, Add 13 1] blank_world)) = [(11, 1), (12, 2)] \<and>
   distinct (map snd (registry blank_world)) \<and>
   once_per_attach [Add 11 1, Add 12 2, Remove 1, Add 11 1] (registry blank_world) \<and>
   registry (run ([Add 11 1, Add 12 2, Remove 1, Add 11 1] @ [Remove 1]) blank_world) = [(12, 2)] \<and>
   1 \<notin> snd ` set (registry (run ([Add 11 1, Add 12 2, Remove 1, Add 11 1] @ [Remove 1]) blank_world)) \<and>
   remove 1 (run ([Add 11 1, Add 12 2, Remove 1, Add 11 1] @ [Remove 1]) blank_world) =
     run ([Add 11 1, Add 12 2, Remove 1, Add 11 1] @ [Remove 1]) blank_world"
  using remove_once_attached [of 1 "run [Add 11 1, Add 12 2, Add 13 1] blank_world"
      blank_world "[Add 11 1, Add 12 2, Remove 1, Add 11 1]" 1]
  by (simp add: blank_world_def add_def remove_def remove_pairs_def splice1_def)

text \<open>
  C7 as stated fails: after add, add and remove for the same accessor a pairing with
  that accessor is still there, and a second remove is not a no-op.
\<close>

theorem remove_leaves_second_pairing:
  "registry (run [Add 11 1, Add 11 1, Remove 1] blank_world) = [(11, 1)] \<and>
   1 \<in> snd ` set (registry (run [Add 11 1, Add 11 1, Remove 1] blank_world)) \<and>
   remove 1 (run [Add 11 1, Add 11 1, Remove 1] blank_world) \<noteq>
     run [Add 11 1, Add 11 1, Remove 1] blank_world"
  by (simp add: blank_world_def add_def remove_def remove_pairs_def splice1_def)

subsection \<open>Name resolution\<close>

lemma build_name_started:
  "acc \<noteq> [] \<Longrightarrow> build_name acc isPrev pas = acc @ spec_rest isPrev pas"
  by (induction pas arbitrary: acc isPrev) simp_all

lemma build_name_spec:
  assumes "to_string (fst pa) \<noteq> [] \<or> snd pa \<or> pas = []"
  shows "build_name [] False (pa # pas) = spec_name (pa # pas)"
proof (cases "to_string (fst pa) = []")
  case False
  then show ?thesis by (simp add: build_name_started)
next
  case True
  show ?thesis
  proof (cases pas)
    case Nil
    with True show ?thesis by simp
  next
    case (Cons q qs)
    with assms True have "snd pa" by simp
    with True Cons show ?thesis by (simp add: build_name_started)
  qed
qed

lemma fill_last_length: "length (fill_last p f) = length p"
  by (simp add: fill_last_def)

lemma fill_last_snoc:
  "fill_last (ys @ [y]) f = ys @ [if is_nullish y then f else y]"
  by (simp add: fill_last_def)

lemma fill_last_twice: "fill_last (fill_last p f) f = fill_last p f"
proof (cases p rule: rev_cases)
  case Nil
  then show ?thesis by (simp add: fill_last_def)
next
  case (snoc ys y)
  then show ?thesis by (simp add: fill_last_snoc)
qed

lemma fill_last_cons: "\<exists>s' ss'. fill_last (s # ss) f = s' # ss'"
  using fill_last_length [of "s # ss" f] by (cases "fill_last (s # ss) f") auto

lemma parsedAncestors_cons:
  "\<exists>pa pas. parsedAncestors (s # ss) ancs = pa # pas"
  by (cases "parsedAncestors (s # ss) ancs") (auto simp: parsedAncestors_def)

lemma parsedName_found:
  assumes "control_ref (accessors w a) = Some h"
    and "parent_ref (handles w h) = Some pr"
    and "path (handles w h) = Some (s # ss)"
  shows "parsedName a w =
     (Inr (Str (build_name [] False
        (parsedAncestors (fill_last (s # ss) (formControlName (accessors w a)))
           (collect_ancestors (containers w pr))))),
      w\<lparr>handles := (handles w)(h := (handles w h)
           \<lparr>path := Some (fill_last (s # ss) (formControlName (accessors w a)))\<rparr>)\<rparr>)"
  using assms by (simp add: parsedName_def Let_def)

lemma parsedName_default:
  assumes "control_ref (accessors w a) = Some h"
    and "parent_ref (handles w h) = None \<or> path (handles w h) = None \<or> path (handles w h) = Some []"
  shows "parsedName a w = (Inr (formControlName (accessors w a)), w)"
  using assms by (auto simp: parsedName_def split: option.splits list.splits)

lemma parsedName_attached:
  "control_ref (accessors w a) = Some h \<Longrightarrow> \<exists>pn. fst (parsedName a w) = Inr pn"
  by (auto simp: parsedName_def Let_def split: option.splits list.splits)

lemma parsedName_frame:
  "accessors (snd (parsedName a w)) = accessors w"
  "registry (snd (parsedName a w)) = registry w"
  "containers (snd (parsedName a w)) = containers w"
  "trace (snd (parsedName a w)) = trace w"
  by (auto simp: parsedName_def Let_def split: option.splits list.splits)

lemma parsedName_twice:
  "parsedName a (snd (parsedName a w)) = parsedName a w"
proof (cases "control_ref (accessors w a)")
  case None
  then show ?thesis by (simp add: parsedName_def)
next
  case (Some h)
  show ?thesis
  proof (cases "\<exists>pr s ss. parent_ref (handles w h) = Some pr \<and> path (handles w h) = Some (s # ss)")
    case True
    then obtain pr s ss where f: "parent_ref (handles w h) = Some pr"
      "path (handles w h) = Some (s # ss)" by blast
    let ?f = "formControlName (accessors w a)"
    let ?w1 = "w\<lparr>handles := (handles w)(h := (handles w h)\<lparr>path := Some (fill_last (s # ss) ?f)\<rparr>)\<rparr>"
    obtain s' ss' where c: "fill_last (s # ss) ?f = s' # ss'"
      using fill_last_cons by blast
    have 1: "parsedName a w = (Inr (Str (build_name [] False
        (parsedAncestors (fill_last (s # ss) ?f) (collect_ancestors (containers w pr))))), ?w1)"
      using parsedName_found [OF Some f] .
    have "fill_last (s' # ss') ?f = s' # ss'"
      using fill_last_twice [of "s # ss" ?f] c by simp
    then have 2: "parsedName a ?w1 = (Inr (Str (build_name [] False
        (parsedAncestors (s' # ss') (collect_ancestors (containers w pr))))), ?w1)"
      using parsedName_found [of ?w1 a h pr s' ss'] Some f c by simp
    from 1 2 c show ?thesis by simp
  next
    case False
    then have "parent_ref (handles w h) = None \<or> path (handles w h) = None \<or>
        path (handles w h) = Some []"
      by (cases "parent_ref (handles w h)"; cases "path (handles w h)";
          cases "the (path (handles w h))") auto
    from parsedName_default [OF Some this] show ?thesis by simp
  qed
qed

lemma list_all_both:
  "list_all (\<lambda>p. P p \<and> Q p) xs = (list_all P xs \<and> list_all Q xs)"
  by (induction xs) auto

lemma list_all_last:
  "xs \<noteq> [] \<Longrightarrow> list_all P xs = (list_all P (butlast xs) \<and> P (last xs))"
  using list_all_append [of P "butlast xs" "[last xs]"] by simp

lemma segment_text_first: "segment_text (x # xs) 0 = to_string (fst x)"
  by (simp add: segment_text_def)

lemma segment_text_next:
  assumes "pre \<noteq> []"
  shows "segment_text (pre @ x # xs) (length pre) =
     (if snd (last pre) then ''['' @ to_string (fst x) @ '']''
      else if list_all (\<lambda>p. to_string (fst p) = []) pre \<and> list_all (\<lambda>p. \<not> snd p) (butlast pre)
        then to_string (fst x)
      else ''.'' @ to_string (fst x))"
proof -
  have "(pre @ x # xs) ! (length pre - 1) = last pre"
    using assms by (simp add: nth_append last_conv_nth)
  moreover have "list_all (\<lambda>p. \<not> snd p) pre =
      (list_all (\<lambda>p. \<not> snd p) (butlast pre) \<and> \<not> snd (last pre))"
    using assms by (rule list_all_last)
  ultimately show ?thesis
    using assms by (auto simp: segment_text_def list_all_both)
qed

text \<open>
  The loop after the segments \<open>pre\<close>: the name so far is empty iff all of them are empty
  strings written bare.
\<close>

lemma build_name_from:
  assumes "(acc = []) = (list_all (\<lambda>p. to_string (fst p) = []) pre \<and>
                          list_all (\<lambda>p. \<not> snd p) (butlast pre))"
    and "isPrev = (pre \<noteq> [] \<and> snd (last pre))"
  shows "build_name acc isPrev rest =
           acc @ concat (map (segment_text (pre @ rest)) [length pre..<length pre + length rest])"
  using assms
proof (induction rest arbitrary: pre acc isPrev)
  case Nil
  then show ?case by simp
next
  case (Cons x xs)
  let ?s = "to_string (fst x)"
  let ?r = "segment_text (pre @ x # xs) (length pre)"
  let ?acc = "acc @ ?r"
  have step: "(if isPrev then acc @ ''['' @ ?s @ '']''
               else acc @ (if acc \<noteq> [] then ''.'' else '''') @ ?s) = ?acc"
  proof (cases "pre = []")
    case True
    with Cons.prems show ?thesis by (simp add: segment_text_first)
  next
    case False
    with Cons.prems show ?thesis by (simp add: segment_text_next)
  qed
  have empty: "(?acc = []) = (list_all (\<lambda>p. to_string (fst p) = []) (pre @ [x]) \<and>
                               list_all (\<lambda>p. \<not> snd p) (butlast (pre @ [x])))"
  proof (cases "pre = []")
    case True
    with Cons.prems show ?thesis by (simp add: segment_text_first)
  next
    case False
    then have l: "list_all (\<lambda>p. \<not> snd p) pre =
        (list_all (\<lambda>p. \<not> snd p) (butlast pre) \<and> \<not> snd (last pre))"
      by (rule list_all_last)
    from False Cons.prems l show ?thesis
      by (auto simp: segment_text_next butlast_append)
  qed
  have prev: "snd x = (pre @ [x] \<noteq> [] \<and> snd (last (pre @ [x])))"
    by simp
  have range: "[length pre..<length pre + length (x # xs)] =
      length pre # [Suc (length pre)..<length pre + length (x # xs)]"
    by (rule upt_conv_Cons) simp
  have "build_name acc isPrev (x # xs) = build_name ?acc (snd x) xs"
    using step by simp
  also have "\<dots> = ?acc @ concat (map (segment_text ((pre @ [x]) @ xs))
                        [length (pre @ [x])..<length (pre @ [x]) + length xs])"
    using empty prev by (rule Cons.IH)
  also have "\<dots> = acc @ concat (map (segment_text (pre @ x # xs))
                        (length pre # [Suc (length pre)..<length pre + length (x # xs)]))"
    by simp
  also have "\<dots> = acc @ concat (map (segment_text (pre @ x # xs))
                        [length pre..<length pre + length (x # xs)])"
    by (simp only: range)
  finally show ?case .
qed

lemma build_name_by_position: "build_name [] False pas = name_by_position pas"
  using build_name_from [of "[]" "[]" False pas] by (simp add: name_by_position_def)

text \<open>
  C2, as amended. For an accessor whose handle has a parent and a non-empty path, let
  \<open>pas\<close> pair each segment of the path (the last one filled in) with the flag of the
  ancestor at its position. The computed name is the first segment bare, followed by
  each later segment as \<^verbatim>\<open>[segment]\<close> if the ancestor of the segment before it is
  array-like, and otherwise as \<^verbatim>\<open>.segment\<close>, where the dot is left out as long as
  nothing has been written (every earlier segment is the empty string with no
  array-like ancestor). When the first segment is not the empty string, or its ancestor
  is array-like, or it is the only segment, no dot is left out.
\<close>

theorem parsedName_dotted:
  assumes "control_ref (accessors w a) = Some h"
    and "parent_ref (handles w h) = Some pr"
    and "path (handles w h) = Some (s # ss)"
    and "pas = parsedAncestors (fill_last (s # ss) (formControlName (accessors w a)))
                 (collect_ancestors (containers w pr))"
  shows "fst (parsedName a w) = Inr (Str (name_by_position pas)) \<and>
         (to_string (fst (hd pas)) \<noteq> [] \<or> snd (hd pas) \<or> length pas = 1 \<longrightarrow>
            name_by_position pas = spec_name pas)"
proof -
  have name: "fst (parsedName a w) = Inr (Str (name_by_position pas))"
    using parsedName_found [OF assms(1-3)] assms(4) by (simp add: build_name_by_position)
  obtain s' ss' where c: "fill_last (s # ss) (formControlName (accessors w a)) = s' # ss'"
    using fill_last_cons by blast
  have "\<exists>pa qs. pas = pa # qs"
    using parsedAncestors_cons [of s' ss' "collect_ancestors (containers w pr)"]
    unfolding assms(4) c .
  then obtain pa qs where p: "pas = pa # qs" by blast
  have "name_by_position pas = spec_name pas"
    if "to_string (fst (hd pas)) \<noteq> [] \<or> snd (hd pas) \<or> length pas = 1"
  proof -
    from that p have "to_string (fst pa) \<noteq> [] \<or> snd pa \<or> qs = []" by simp
    then have "build_name [] False pas = spec_name pas"
      unfolding p by (rule build_name_spec)
    then show ?thesis by (simp add: build_name_by_position)
  qed
  with name show ?thesis by blast
qed

text \<open>
  The path addresses, 0, street below root -> array addresses -> element group gives
  the name addresses[0].street. The path of an empty first segment, a and b gives the
  name a.b.
\<close>

theorem parsedName_dotted_witness:
  "control_ref (accessors street_world 4) = Some 14 \<and>
   parent_ref (handles street_world 14) = Some 21 \<and>
   path (handles street_world 14) = Some [Str ''addresses'', Str ''0'', Str ''street''] \<and>
   parsedAncestors (fill_last [Str ''addresses'', Str ''0'', Str ''street'']
       (formControlName (accessors street_world 4)))
     (collect_ancestors (containers street_world 21)) =
     [(Str ''addresses'', True), (Str ''0'', False), (Str ''street'', False)] \<and>
   to_string (Str ''addresses'') \<noteq> [] \<and>
   name_by_position [(Str ''addresses'', True), (Str ''0'', False), (Str ''street'', False)] =
     ''addresses[0].street'' \<and>
   fst (parsedName 4 street_world) = Inr (Str ''addresses[0].street'') \<and>
   path (handles empty_first 19) = Some [Str '''', Str ''a'', Str ''b''] \<and>
   name_by_position [(Str '''', False), (Str ''a'', False), (Str ''b'', False)] = ''a.b'' \<and>
   fst (parsedName 10 empty_first) = Inr (Str ''a.b'')"
proof -
  have 1: "control_ref (accessors street_world 4) = Some 14"
    "parent_ref (handles street_world 14) = Some 21"
    "path (handles street_world 14) = Some [Str ''addresses'', Str ''0'', Str ''street'']"
    "parsedAncestors (fill_last [Str ''addresses'', Str ''0'', Str ''street'']
       (formControlName (accessors street_world 4)))
     (collect_ancestors (containers street_world 21)) =
     [(Str ''addresses'', True), (Str ''0'', False), (Str ''street'', False)]"
    by (simp_all add: street_world_def blank_world_def blank_accessor_def street_handle_def
        fill_last_def parsedAncestors_def collect_ancestors_def element_node_def
        addresses_node_def root_node_def upt_rec)
  have 2: "control_ref (accessors empty_first 10) = Some 19"
    "parent_ref (handles empty_first 19) = Some 20"
    "path (handles empty_first 19) = Some [Str '''', Str ''a'', Str ''b'']"
    "parsedAncestors (fill_last [Str '''', Str ''a'', Str ''b'']
       (formControlName (accessors empty_first 10)))
     (collect_ancestors (containers empty_first 20)) =
     [(Str '''', False), (Str ''a'', False), (Str ''b'', False)]"
    by (simp_all add: empty_first_def blank_world_def blank_accessor_def below_root_def
        fill_last_def parsedAncestors_def collect_ancestors_def root_node_def upt_rec)
  have 3: "name_by_position [(Str ''addresses'', True), (Str ''0'', False), (Str ''street'', False)] =
      ''addresses[0].street''"
    "name_by_position [(Str '''', False), (Str ''a'', False), (Str ''b'', False)] = ''a.b''"
    by (simp_all add: name_by_position_def segment_text_def upt_rec)
  from parsedName_dotted [OF 1(1-3) 1(4) [symmetric]] parsedName_dotted [OF 2(1-3) 2(4) [symmetric]]
    1 2 3
  show ?thesis by simp
qed

text \<open>
  C2 as stated fails: with an empty first segment whose ancestor is not array-like, the
  second segment a is rendered bare; the name is a, not .a.
\<close>

theorem parsedName_empty_first_segment:
  "control_ref (accessors odd_paths 5) = Some 15 \<and>
   parent_ref (handles odd_paths 15) = Some 20 \<and>
   path (handles odd_paths 15) = Some [Str '''', Str ''a''] \<and>
   parsedAncestors (fill_last [Str '''', Str ''a''] (formControlName (accessors odd_paths 5)))
     (collect_ancestors (containers odd_paths 20)) = [(Str '''', False), (Str ''a'', False)] \<and>
   spec_name [(Str '''', False), (Str ''a'', False)] = ''.a'' \<and>
   fst (parsedName 5 odd_paths) = Inr (Str ''a'')"
  by (simp add: odd_paths_def blank_world_def blank_accessor_def below_root_def
      fill_last_def parsedAncestors_def collect_ancestors_def parsedName_def
      leaf_node_def root_node_def upt_rec Let_def)

text \<open>
  C8, as amended. For an accessor whose handle has a parent and a non-empty path, name
  resolution leaves the path as it was except for the last segment: an unset last
  segment (null or undefined) is replaced by formControlName, so that the two agree
  afterwards; a last segment that is set is kept, and then the world is unchanged.
\<close>

theorem parsedName_fills_last:
  assumes "control_ref (accessors w a) = Some h"
    and "parent_ref (handles w h) = Some pr"
    and "path (handles w h) = Some p" and "p \<noteq> []"
  shows "path (handles (snd (parsedName a w)) h) =
           Some (butlast p @ [if is_nullish (last p) then formControlName (accessors w a) else last p]) \<and>
         (is_nullish (last p) \<longrightarrow>
            path (handles (snd (parsedName a w)) h) = Some (butlast p @ [formControlName (accessors w a)])) \<and>
         (\<not> is_nullish (last p) \<longrightarrow> snd (parsedName a w) = w)"
proof -
  from assms(4) obtain s ss where c: "p = s # ss" by (cases p) auto
  have "fill_last p (formControlName (accessors w a)) =
      butlast p @ [if is_nullish (last p) then formControlName (accessors w a) else last p]"
    using fill_last_snoc [of "butlast p" "last p"] assms(4) by simp
  moreover have "fill_last p (formControlName (accessors w a)) = p" if "\<not> is_nullish (last p)"
    using that fill_last_snoc [of "butlast p" "last p"] assms(4) by simp
  moreover have "w\<lparr>handles := (handles w)(h := (handles w h)\<lparr>path := Some p\<rparr>)\<rparr> = w"
  proof -
    have "(handles w h)\<lparr>path := Some p\<rparr> = handles w h"
      using assms(3) by (cases "handles w h") simp
    then show ?thesis by simp
  qed
  ultimately show ?thesis
    using parsedName_found [OF assms(1,2), of s ss] assms(3) c by auto
qed

text \<open>The path g, null of a radio with the formControlName street becomes g, street.\<close>

theorem parsedName_fills_last_witness:
  "control_ref (accessors odd_paths 9) = Some 18 \<and>
   parent_ref (handles odd_paths 18) = Some 20 \<and>
   path (handles odd_paths 18) = Some [Str ''g'', Null] \<and>
   is_nullish (last [Str ''g'', Null]) \<and>
   formControlName (accessors odd_paths 9) = Str ''street'' \<and>
   path (handles (snd (parsedName 9 odd_paths)) 18) = Some [Str ''g'', Str ''street'']"
  using parsedName_fills_last [of odd_paths 9 18 20 "[Str ''g'', Null]"]
  by (simp add: odd_paths_def blank_world_def blank_accessor_def below_root_def)

text \<open>
  C8 as stated fails: the path a of a radio with the formControlName b is still a after
  name resolution, and the computed name is a.
\<close>

theorem parsedName_keeps_other_last:
  "control_ref (accessors odd_paths 6) = Some 16 \<and>
   parent_ref (handles odd_paths 16) = Some 20 \<and>
   path (handles odd_paths 16) = Some [Str ''a''] \<and>
   formControlName (accessors odd_paths 6) = Str ''b'' \<and>
   fst (parsedName 6 odd_paths) = Inr (Str ''a'') \<and>
   path (handles (snd (parsedName 6 odd_paths)) 16) = Some [Str ''a'']"
  by (simp add: odd_paths_def blank_world_def blank_accessor_def below_root_def
      fill_last_def parsedAncestors_def collect_ancestors_def parsedName_def
      leaf_node_def root_node_def upt_rec Let_def)

subsection \<open>Attaching\<close>

lemma setControl_fields:
  "control_ref (accessors (setControl a h w) a) = Some h"
  "name (accessors (setControl a h w) c) = name (accessors w c)"
  "formControlName (accessors (setControl a h w) c) = formControlName (accessors w c)"
  "registry (setControl a h w) = registry w"
  "handles (setControl a h w) = handles w"
  "containers (setControl a h w) = containers w"
  by (simp_all add: setControl_def)

lemma checkName_conflict:
  assumes "control_ref (accessors w a) = Some h"
    and "truthy (name (accessors w a))" and "truthy (formControlName (accessors w a))"
    and "fst (parsedName a w) = Inr pn" and "pn \<noteq> name (accessors w a)"
  shows "checkName a w = (Some (NameError (name (accessors w a)) pn), snd (parsedName a w))"
proof -
  obtain w1 where 1: "parsedName a w = (Inr pn, w1)"
    using assms(4) by (cases "parsedName a w") auto
  then have 2: "parsedName a w1 = (Inr pn, w1)"
    using parsedName_twice [of a w] by simp
  have "accessors w1 = accessors w"
    using parsedName_frame(1) [of a w] 1 by simp
  with assms(2,3,5) 1 2 show ?thesis
    by (auto simp: checkName_def)
qed

text \<open>
  C4, as amended. If at attach time the name and the formControlName are both set (not
  empty) and the name differs from the computed name, ngOnInit throws the name error,
  which carries the name and the computed name, and the registry is unchanged.
\<close>

theorem ngOnInit_name_conflict:
  assumes "truthy (name (accessors w a))" and "truthy (formControlName (accessors w a))"
    and "fst (parsedName a (setControl a h w)) \<noteq> Inr (name (accessors w a))"
  shows "\<exists>pn. fst (parsedName a (setControl a h w)) = Inr pn \<and>
           fst (ngOnInit a h w) = Some (NameError (name (accessors w a)) pn) \<and>
           registry (snd (ngOnInit a h w)) = registry w"
proof -
  let ?w0 = "setControl a h w"
  obtain pn where pn: "fst (parsedName a ?w0) = Inr pn"
    using parsedName_attached [of ?w0 a h] by (auto simp: setControl_fields)
  with assms(3) have ne: "pn \<noteq> name (accessors ?w0 a)"
    by (auto simp: setControl_fields)
  have "checkName a ?w0 = (Some (NameError (name (accessors ?w0 a)) pn), snd (parsedName a ?w0))"
    using assms(1,2) pn ne by (intro checkName_conflict [of ?w0 a h]) (simp_all add: setControl_fields)
  then have "ngOnInit a h w = (Some (NameError (name (accessors w a)) pn), snd (parsedName a ?w0))"
    by (simp add: ngOnInit_def setControl_fields)
  with pn show ?thesis
    by (auto simp: parsedName_frame setControl_fields)
qed

text \<open>The name x with the formControlName x on a handle with the path g, x: the error is thrown.\<close>

theorem ngOnInit_name_conflict_witness:
  "truthy (name (accessors odd_paths 8)) \<and>
   truthy (formControlName (accessors odd_paths 8)) \<and>
   name (accessors odd_paths 8) = Str ''x'' \<and>
   fst (parsedName 8 (setControl 8 17 odd_paths)) = Inr (Str ''g.x'') \<and>
   fst (ngOnInit 8 17 odd_paths) = Some (NameError (Str ''x'') (Str ''g.x'')) \<and>
   registry (snd (ngOnInit 8 17 odd_paths)) = []"
  using ngOnInit_name_conflict [of odd_paths 8 17]
  by (simp add: odd_paths_def blank_world_def blank_accessor_def below_root_def
      fill_last_def parsedAncestors_def collect_ancestors_def parsedName_def setControl_def
      leaf_node_def root_node_def upt_rec Let_def)

text \<open>
  C4 as stated fails: the name x and the computed name g.x both exist and differ, but the
  radio has no formControlName; ngOnInit does not throw and registers the accessor.
\<close>

theorem ngOnInit_ignores_path_without_formControlName:
  "truthy (name (accessors odd_paths 7)) \<and>
   name (accessors odd_paths 7) = Str ''x'' \<and>
   fst (parsedName 7 (setControl 7 17 odd_paths)) = Inr (Str ''g.x'') \<and>
   fst (ngOnInit 7 17 odd_paths) = None \<and>
   registry (snd (ngOnInit 7 17 odd_paths)) = [(17, 7)]"
  by (simp add: odd_paths_def blank_world_def blank_accessor_def below_root_def
      fill_last_def parsedAncestors_def collect_ancestors_def parsedName_def setControl_def
      leaf_node_def root_node_def upt_rec Let_def ngOnInit_def checkName_def add_def)

text \<open>
  C9. If formControlName is not set (undefined, null or empty), ngOnInit throws nothing,
  leaves the name as it is and appends the pairing of the handle and the accessor to the
  registry, whatever the name is.
\<close>

theorem ngOnInit_without_formControlName:
  assumes "\<not> truthy (formControlName (accessors w a))"
  shows "ngOnInit a h w = (None, add h a (setControl a h w)) \<and>
         name (accessors (snd (ngOnInit a h w)) a) = name (accessors w a) \<and>
         registry (snd (ngOnInit a h w)) = registry w @ [(h, a)]"
proof -
  have "checkName a (setControl a h w) = (None, setControl a h w)"
    using assms by (simp add: checkName_def setControl_fields)
  then have "ngOnInit a h w = (None, add h a (setControl a h w))"
    by (simp add: ngOnInit_def)
  then show ?thesis
    by (simp add: add_def setControl_fields)
qed

text \<open>The radio with the name x and no formControlName is registered with its name unchanged.\<close>

theorem ngOnInit_without_formControlName_witness:
  "\<not> truthy (formControlName (accessors odd_paths 7)) \<and>
   fst (ngOnInit 7 17 odd_paths) = None \<and>
   name (accessors (snd (ngOnInit 7 17 odd_paths)) 7) = Str ''x'' \<and>
   registry (snd (ngOnInit 7 17 odd_paths)) = [(17, 7)]"
proof -
  have h: "\<not> truthy (formControlName (accessors odd_paths 7))"
    by (simp add: odd_paths_def blank_world_def blank_accessor_def)
  have n: "name (accessors odd_paths 7) = Str ''x''" and r: "registry odd_paths = []"
    by (simp_all add: odd_paths_def blank_world_def blank_accessor_def)
  from ngOnInit_without_formControlName [OF h, of 17] h n r show ?thesis
    by (simp add: add_def setControl_def)
qed

end
